theory Spec2Isabelle
  imports Main "HOL-Library.Sublist"
begin

section \<open>Phase I of the DM2019W assembler\<close>

text \<open>
  The repository holds two near-identical copies of the first assembler phase,
  \<^verbatim>\<open>assembler_phase1.py\<close> and \<^verbatim>\<open>fadfa.py\<close>. Both are embedded here; every definition
  that differs between the two takes the file as its first argument.

  Python strings are modelled as \<^typ>\<open>string\<close>, a \<^typ>\<open>char\<close> standing for the code point
  of the same number, so the model covers the strings whose code points are below 256.
\<close>

datatype source_file = assembler_phase1 | fadfa

subsection \<open>Character classes of Python's \<^verbatim>\<open>re\<close> and \<^verbatim>\<open>str\<close>\<close>

definition code_point :: "char \<Rightarrow> nat" where
  "code_point c = of_char c"

text \<open>\<^verbatim>\<open>\s\<close> and \<^verbatim>\<open>str.isspace\<close>: TAB..CR, FS..US, space, NEL, NBSP.\<close>

definition is_space :: "char \<Rightarrow> bool" where
  "is_space c = (let n = code_point c in
     (9 \<le> n \<and> n \<le> 13) \<or> (28 \<le> n \<and> n \<le> 32) \<or> n = 133 \<or> n = 160)"

text \<open>\<^verbatim>\<open>[a-z]\<close>, \<^verbatim>\<open>[A-Z]\<close>, \<^verbatim>\<open>[a-zA-Z]\<close>, \<^verbatim>\<open>[0-9]\<close>, \<^verbatim>\<open>[a-fA-F0-9]\<close>.\<close>

definition is_lower :: "char \<Rightarrow> bool" where
  "is_lower c = (97 \<le> code_point c \<and> code_point c \<le> 122)"

definition is_upper :: "char \<Rightarrow> bool" where
  "is_upper c = (65 \<le> code_point c \<and> code_point c \<le> 90)"

definition is_alpha :: "char \<Rightarrow> bool" where
  "is_alpha c = (is_lower c \<or> is_upper c)"

definition is_digit :: "char \<Rightarrow> bool" where
  "is_digit c = (48 \<le> code_point c \<and> code_point c \<le> 57)"

definition is_hex :: "char \<Rightarrow> bool" where
  "is_hex c = ((97 \<le> code_point c \<and> code_point c \<le> 102) \<or>
               (65 \<le> code_point c \<and> code_point c \<le> 70) \<or> is_digit c)"

text \<open>
  \<^verbatim>\<open>\w\<close> on a \<^verbatim>\<open>str\<close> pattern: the alphanumeric code points and the underscore. Below 256
  these are the ASCII letters and digits, the underscore, and the Latin-1 letters and
  numerics listed.
\<close>

definition is_word :: "char \<Rightarrow> bool" where
  "is_word c = (let n = code_point c in
     is_alpha c \<or> is_digit c \<or> n = 95 \<or>
     n = 170 \<or> n = 178 \<or> n = 179 \<or> n = 181 \<or> n = 185 \<or> n = 186 \<or>
     n = 188 \<or> n = 189 \<or> n = 190 \<or>
     (192 \<le> n \<and> n \<le> 214) \<or> (216 \<le> n \<and> n \<le> 246) \<or> (248 \<le> n \<and> n \<le> 255))"

text \<open>\<^verbatim>\<open>[\#;]\<close>, \<^verbatim>\<open>.\<close> (anything but a line feed), \<^verbatim>\<open>[-]\<close>.\<close>

definition is_comment_start :: "char \<Rightarrow> bool" where
  "is_comment_start c = (c = CHR ''#'' \<or> c = CHR '';'')"

definition is_dot :: "char \<Rightarrow> bool" where
  "is_dot c = (c \<noteq> CHR 0x0A)"

definition is_minus :: "char \<Rightarrow> bool" where
  "is_minus c = (c = CHR ''-'')"

subsection \<open>A backtracking matcher for the regular expressions of the two files\<close>

datatype regex =
    Class "char \<Rightarrow> bool"
  | Lit string
  | Then regex regex
  | Alt regex regex
  | Opt regex
  | Star regex
  | Plus regex
  | Named string regex
  | NotAhead regex
  | WordB
  | Eos

type_synonym groups = "string \<rightharpoonup> string"

text \<open>
  A matching position: the named groups captured so far, the character just before the
  position (for \<^verbatim>\<open>\b\<close>) and the text still to be matched.
\<close>

record mstate =
  caps :: groups
  prev :: "char option"
  rest :: string

text \<open>
  \<open>match r st\<close> lists the positions at which \<open>r\<close> can end when started at \<open>st\<close>, in the
  order in which Python's backtracking engine tries them: the left alternative first,
  the optional part present before absent, the longest repetition first. A repetition
  loops only while its body consumes text; its fuel is the length of the remaining text.
\<close>

fun star :: "(mstate \<Rightarrow> mstate list) \<Rightarrow> nat \<Rightarrow> mstate \<Rightarrow> mstate list" where
  "star f 0 st = [st]"
| "star f (Suc n) st =
     concat (map (\<lambda>st'. if length (rest st') < length (rest st) then star f n st' else [])
                 (f st)) @ [st]"

definition word_before :: "mstate \<Rightarrow> bool" where
  "word_before st = (case prev st of None \<Rightarrow> False | Some c \<Rightarrow> is_word c)"

definition word_after :: "mstate \<Rightarrow> bool" where
  "word_after st = (case rest st of [] \<Rightarrow> False | c # _ \<Rightarrow> is_word c)"

primrec match :: "regex \<Rightarrow> mstate \<Rightarrow> mstate list" where
  "match (Class p) st =
     (case rest st of [] \<Rightarrow> []
      | c # cs \<Rightarrow> if p c then [st\<lparr>prev := Some c, rest := cs\<rparr>] else [])"
| "match (Lit w) st =
     (if prefix w (rest st)
      then [st\<lparr>prev := (if w = [] then prev st else Some (last w)),
                rest := drop (length w) (rest st)\<rparr>]
      else [])"
| "match (Then a b) st = concat (map (match b) (match a st))"
| "match (Alt a b) st = match a st @ match b st"
| "match (Opt a) st = match a st @ [st]"
| "match (Star a) st = star (match a) (length (rest st)) st"
| "match (Plus a) st =
     concat (map (\<lambda>st'. star (match a) (length (rest st')) st') (match a st))"
| "match (Named n a) st =
     map (\<lambda>st'. st'\<lparr>caps := (caps st')(n \<mapsto>
            take (length (rest st) - length (rest st')) (rest st))\<rparr>) (match a st)"
| "match (NotAhead a) st = (if match a st = [] then [st] else [])"
| "match WordB st = (if word_before st \<noteq> word_after st then [st] else [])"
| "match Eos st = (if rest st = [] \<or> rest st = [CHR 0x0A] then [st] else [])"

text \<open>\<^verbatim>\<open>pattern.fullmatch(line).groupdict()\<close>: the first way to match that ends at the end.\<close>

definition fullmatch :: "regex \<Rightarrow> string \<Rightarrow> groups option" where
  "fullmatch r s =
     (case filter (\<lambda>st. rest st = []) (match r \<lparr>caps = Map.empty, prev = None, rest = s\<rparr>) of
        [] \<Rightarrow> None
      | st # _ \<Rightarrow> Some (caps st))"

fun seq :: "regex list \<Rightarrow> regex" where
  "seq [] = Lit []"
| "seq [r] = r"
| "seq (r # rs) = Then r (seq rs)"

subsection \<open>The line grammars\<close>

datatype AsmSrcKind = COMMENT | FULL | DATA | MEMOP | JUMP

text \<open>The parts the patterns share.\<close>

definition spaces :: regex where
  "spaces = Star (Class is_space)"

definition label_name :: regex where
  "label_name = Then (Class is_alpha) (Star (Class is_word))"

definition optional_label :: regex where
  "optional_label = Opt (Then (Named ''label'' label_name) (Lit '':''))"

definition optional_predicate :: regex where
  "optional_predicate = Opt (Then (Lit ''/'') (Named ''predicate'' (Plus (Class is_upper))))"

definition register_name :: regex where
  "register_name = Then (Lit ''r'') (Plus (Class is_digit))"

definition comment_text :: regex where
  "comment_text = Named ''comment'' (Then (Class is_comment_start) (Star (Class is_dot)))"

definition trailing_comment :: regex where
  "trailing_comment = Opt (Then spaces comment_text)"

definition data_value :: regex where
  "data_value = Alt (Then (Lit ''0x'') (Plus (Class is_hex))) (Plus (Class is_digit))"

definition ASM_COMMENT_PAT :: regex where
  "ASM_COMMENT_PAT = seq [spaces, optional_label, spaces, Opt comment_text, spaces, Eos]"

definition ASM_FULL_PAT :: regex where
  "ASM_FULL_PAT = seq [spaces, optional_label, spaces,
     Named ''opcode'' (Plus (Class is_alpha)), optional_predicate,
     Plus (Class is_space),
     Named ''target'' register_name, Lit '','',
     Named ''src1'' register_name, Lit '','',
     Named ''src2'' register_name,
     Opt (seq [Lit ''['', Named ''offset'' (Then (Opt (Class is_minus)) (Plus (Class is_digit))),
               Lit '']'']),
     trailing_comment, spaces, Eos]"

definition lda_free_letter :: regex where
  "lda_free_letter = Then (NotAhead (Alt (Lit ''LDA'') (Lit ''lda''))) (Class is_alpha)"

definition memop_opcode :: "source_file \<Rightarrow> regex" where
  "memop_opcode v = (case v of
       assembler_phase1 \<Rightarrow> Plus (Class is_alpha)
     | fadfa \<Rightarrow> Then WordB (Plus lda_free_letter))"

definition ASM_MEMOP_PAT :: "source_file \<Rightarrow> regex" where
  "ASM_MEMOP_PAT v = seq [spaces, optional_label, spaces,
     Named ''opcode'' (memop_opcode v), optional_predicate,
     Plus (Class is_space),
     Named ''target'' register_name, Lit '','',
     Named ''labelref'' label_name,
     trailing_comment, spaces, Eos]"

definition jump_opcode :: "source_file \<Rightarrow> regex" where
  "jump_opcode v = (case v of
       assembler_phase1 \<Rightarrow> Lit ''JUMP''
     | fadfa \<Rightarrow> Alt (Lit ''JUMP'') (Lit ''jump''))"

definition ASM_JUMP_PAT :: "source_file \<Rightarrow> regex" where
  "ASM_JUMP_PAT v = seq [spaces, optional_label, spaces,
     Named ''opcode'' (jump_opcode v), optional_predicate,
     Plus (Class is_space),
     Named ''labelref'' label_name,
     trailing_comment, spaces, Eos]"

definition ASM_DATA_PAT :: "source_file \<Rightarrow> regex" where
  "ASM_DATA_PAT v = (case v of
       assembler_phase1 \<Rightarrow> seq [spaces, optional_label, spaces,
         Named ''opcode'' (Lit ''DATA''),
         spaces, Opt (Named ''value'' data_value),
         trailing_comment, spaces, Eos]
     | fadfa \<Rightarrow> seq [spaces, optional_label, spaces,
         Named ''opcode'' (Alt (Lit ''DATA'') (Lit ''data'')), optional_predicate,
         spaces, Opt (Named ''value'' data_value),
         trailing_comment, spaces, Eos])"

definition PATTERNS :: "source_file \<Rightarrow> (regex \<times> AsmSrcKind) list" where
  "PATTERNS v = [(ASM_FULL_PAT, FULL),
                 (ASM_DATA_PAT v, DATA),
                 (ASM_COMMENT_PAT, COMMENT),
                 (ASM_MEMOP_PAT v, MEMOP),
                 (ASM_JUMP_PAT v, JUMP)]"

subsection \<open>\<^verbatim>\<open>parse_line\<close>\<close>

text \<open>
  The dictionary \<^verbatim>\<open>parse_line\<close> returns: the named groups of the pattern that matched
  (\<open>None\<close> for a group that took no part in the match) and the \<^verbatim>\<open>kind\<close> entry.
\<close>

record parsed_fields =
  kind :: AsmSrcKind
  groupdict :: groups

datatype error = SyntaxError string | KeyError string | AttributeError string

fun parse_with :: "(regex \<times> AsmSrcKind) list \<Rightarrow> string \<Rightarrow> error + parsed_fields" where
  "parse_with [] line = Inl (SyntaxError (''Assembler syntax error in '' @ line))"
| "parse_with ((pattern, k) # ps) line =
     (case fullmatch pattern line of
        Some g \<Rightarrow> Inr \<lparr>kind = k, groupdict = g\<rparr>
      | None \<Rightarrow> parse_with ps line)"

definition parse_line :: "source_file \<Rightarrow> string \<Rightarrow> error + parsed_fields" where
  "parse_line v line = parse_with (PATTERNS v) line"

subsection \<open>\<^verbatim>\<open>value_parse\<close>\<close>









subsection \<open>String helpers: \<^verbatim>\<open>rstrip\<close>, \<^verbatim>\<open>upper\<close>, formatting\<close>

definition rstrip :: "string \<Rightarrow> string" where
  "rstrip s = rev (dropWhile is_space (rev s))"

text \<open>
  \<^verbatim>\<open>str.upper\<close>, character by character. It is applied to captured opcodes only, which
  are ASCII letters. (Of the code points below 256, three have an upper case that is not
  a single code point below 256: 181, 223 and 255; they are left as they are here.)
\<close>

definition to_upper :: "char \<Rightarrow> char" where
  "to_upper c = (let n = code_point c in
     if is_lower c \<or> (224 \<le> n \<and> n \<le> 254 \<and> n \<noteq> 247) then char_of (n - 32) else c)"

definition upper :: "string \<Rightarrow> string" where
  "upper s = map to_upper s"

text \<open>Decimal rendering of integers, as \<^verbatim>\<open>str.format\<close> and f-strings do.\<close>

definition digit_char :: "nat \<Rightarrow> char" where
  "digit_char d = char_of (48 + d)"

function str_nat :: "nat \<Rightarrow> string" where
  "str_nat n = (if n < 10 then [digit_char n] else str_nat (n div 10) @ [digit_char (n mod 10)])"
  by pat_completeness auto
termination
  by (relation "measure id") auto

declare str_nat.simps [simp del]

definition str_int :: "int \<Rightarrow> string" where
  "str_int i = (if i < 0 then CHR ''-'' # str_nat (nat (- i)) else str_nat (nat i))"

text \<open>An f-string field \<^verbatim>\<open>{f['key']}\<close>: the text, or \<^verbatim>\<open>None\<close> spelled out.\<close>

definition fmt :: "string option \<Rightarrow> string" where
  "fmt x = (case x of None \<Rightarrow> ''None'' | Some s \<Rightarrow> s)"

text \<open>
  \<^verbatim>\<open>str(KeyError(key))\<close> is the \<^verbatim>\<open>repr\<close> of the key: for a label reference, which has
  neither quotes nor backslashes nor unprintable characters, the key in single quotes.
\<close>

definition key_repr :: "string option \<Rightarrow> string" where
  "key_repr k = (case k of None \<Rightarrow> ''None'' | Some s \<Rightarrow> [CHR 0x27] @ s @ [CHR 0x27])"

subsection \<open>\<^verbatim>\<open>fix_optional_fields\<close>\<close>

definition fix_optional_fields :: "parsed_fields \<Rightarrow> parsed_fields" where
  "fix_optional_fields f = (let g = groupdict f in
     f\<lparr>groupdict := g(
        ''label'' \<mapsto> (case g ''label'' of None \<Rightarrow> ''    '' | Some l \<Rightarrow> l @ '':''),
        ''predicate'' \<mapsto> (case g ''predicate'' of None \<Rightarrow> [] | Some p \<Rightarrow> ''/'' @ p),
        ''comment'' \<mapsto> (case g ''comment'' of None \<Rightarrow> [] | Some c \<Rightarrow> c))\<rparr>)"

subsection \<open>\<^verbatim>\<open>squish\<close>\<close>

text \<open>
  \<^verbatim>\<open>s.strip()\<close>, \<^verbatim>\<open>s.split()\<close> (the maximal runs of characters that are not white space)
  and \<^verbatim>\<open>" ".join(parts)\<close>. \<^verbatim>\<open>assembler_phase1.py\<close> defines \<^verbatim>\<open>squish\<close> and never calls
  it.
\<close>

definition strip :: "string \<Rightarrow> string" where
  "strip s = dropWhile is_space (rstrip s)"

fun split_from :: "string \<Rightarrow> string \<Rightarrow> string list" where
  "split_from cur [] = (if cur = [] then [] else [cur])"
| "split_from cur (c # cs) =
     (if is_space c
      then (if cur = [] then split_from [] cs else cur # split_from [] cs)
      else split_from (cur @ [c]) cs)"

definition split :: "string \<Rightarrow> string list" where
  "split s = split_from [] s"

fun join :: "string \<Rightarrow> string list \<Rightarrow> string" where
  "join sep [] = []"
| "join sep [p] = p"
| "join sep (p # ps) = p @ sep @ join sep ps"

definition squish :: "string \<Rightarrow> string" where
  "squish s = join '' '' (split (strip s))"

subsection \<open>\<^verbatim>\<open>resolve\<close>: the symbol table\<close>

type_synonym symtab = "string \<rightharpoonup> int"

text \<open>
  The body of the \<^verbatim>\<open>try\<close> of \<^verbatim>\<open>resolve\<close> on one (already right-stripped) line, from the
  table and address counter before the line to those after it.
\<close>

definition resolve_body :: "source_file \<Rightarrow> string \<Rightarrow> symtab \<times> int \<Rightarrow> error + symtab \<times> int" where
  "resolve_body v line s =
     (case parse_line v line of
        Inl e \<Rightarrow> Inl e
      | Inr f \<Rightarrow>
          Inr ((case groupdict f ''label'' of None \<Rightarrow> fst s | Some l \<Rightarrow> (fst s)(l \<mapsto> snd s)),
               (if kind f \<noteq> COMMENT then snd s + 1 else snd s)))"

text \<open>One turn of the loop: \<^verbatim>\<open>except Exception: pass\<close> keeps the state of before the line.\<close>

definition resolve_line :: "source_file \<Rightarrow> string \<Rightarrow> symtab \<times> int \<Rightarrow> error + symtab \<times> int" where
  "resolve_line v raw s =
     (case resolve_body v (rstrip raw) s of Inl e \<Rightarrow> Inr s | Inr s' \<Rightarrow> Inr s')"

fun resolve_loop :: "source_file \<Rightarrow> string list \<Rightarrow> symtab \<times> int \<Rightarrow> error + symtab \<times> int" where
  "resolve_loop v [] s = Inr s"
| "resolve_loop v (raw # lines) s =
     (case resolve_line v raw s of Inl e \<Rightarrow> Inl e | Inr s' \<Rightarrow> resolve_loop v lines s')"

definition resolve :: "source_file \<Rightarrow> string list \<Rightarrow> error + symtab" where
  "resolve v lines = map_sum id fst (resolve_loop v lines (Map.empty, 0))"

subsection \<open>\<^verbatim>\<open>transform\<close>: the rewrite pass\<close>

definition ERROR_LIMIT :: nat where
  "ERROR_LIMIT = 5"

text \<open>\<^verbatim>\<open>labels[ref] - address\<close>; a missing key raises \<^verbatim>\<open>KeyError\<close>.\<close>

definition pc_relative :: "symtab \<Rightarrow> string option \<Rightarrow> int \<Rightarrow> error + int" where
  "pc_relative labels ref address =
     (case ref of
        None \<Rightarrow> Inl (KeyError (key_repr None))
      | Some r \<Rightarrow> (case labels r of
                     None \<Rightarrow> Inl (KeyError (key_repr ref))
                   | Some a \<Rightarrow> Inr (a - address)))"

text \<open>
  The text a MEMOP or JUMP line is rewritten to, from the fields after
  \<^verbatim>\<open>fix_optional_fields\<close>, the opcode and target to print and the displacement.
\<close>

definition resolved_text :: "parsed_fields \<Rightarrow> string \<Rightarrow> string \<Rightarrow> int \<Rightarrow> string option \<Rightarrow> string" where
  "resolved_text f opcode target d ref =
     fmt (groupdict f ''label'') @ ''   '' @ opcode @ fmt (groupdict f ''predicate'') @ '' '' @
     '' '' @ target @ '',r0,r15['' @ str_int d @ ''] #'' @ fmt ref @ '' '' @
     '' '' @ fmt (groupdict f ''comment'')"

text \<open>The branch of \<^verbatim>\<open>transform\<close> in \<^verbatim>\<open>assembler_phase1.py\<close> for one parsed line.\<close>

definition emit_phase1 :: "symtab \<Rightarrow> int \<Rightarrow> string \<Rightarrow> parsed_fields \<Rightarrow> error + string" where
  "emit_phase1 labels address line flds =
     (case kind flds of
        FULL \<Rightarrow> Inr line
      | DATA \<Rightarrow> Inr line
      | MEMOP \<Rightarrow>
          (let ref = groupdict flds ''labelref'' in
           case pc_relative labels ref address of
             Inl e \<Rightarrow> Inl e
           | Inr d \<Rightarrow>
               (let f = fix_optional_fields flds in
                Inr (resolved_text f (fmt (groupdict f ''opcode''))
                       (fmt (groupdict f ''target'')) d ref)))
      | JUMP \<Rightarrow>
          (let ref = groupdict flds ''labelref'' in
           case pc_relative labels ref address of
             Inl e \<Rightarrow> Inl e
           | Inr d \<Rightarrow>
               (let f = fix_optional_fields flds in
                Inr (resolved_text f ''ADD'' ''r15'' d ref)))
      | COMMENT \<Rightarrow> Inr line)"

text \<open>
  The same for \<^verbatim>\<open>fadfa.py\<close>, which first puts the opcode in upper case and renders
  FULL and DATA lines from their fields.
\<close>

definition upper_opcode :: "parsed_fields \<Rightarrow> error + parsed_fields" where
  "upper_opcode flds =
     (if kind flds \<noteq> COMMENT
      then (case groupdict flds ''opcode'' of
              None \<Rightarrow> Inl (AttributeError
                ([CHR 0x27] @ ''NoneType'' @ [CHR 0x27] @ '' object has no attribute '' @
                 [CHR 0x27] @ ''upper'' @ [CHR 0x27]))
            | Some opc \<Rightarrow> Inr (flds\<lparr>groupdict := (groupdict flds)(''opcode'' \<mapsto> upper opc)\<rparr>))
      else Inr flds)"

definition emit_fadfa :: "symtab \<Rightarrow> int \<Rightarrow> string \<Rightarrow> parsed_fields \<Rightarrow> error + string" where
  "emit_fadfa labels address line parsed =
     (case upper_opcode parsed of
        Inl e \<Rightarrow> Inl e
      | Inr flds \<Rightarrow>
     (case kind flds of
        FULL \<Rightarrow>
          (let f = fix_optional_fields flds; g = groupdict f in
           if g ''offset'' = None
           then Inr (fmt (g ''label'') @ ''   '' @ fmt (g ''opcode'') @ fmt (g ''predicate'') @ '' '' @
                     '' '' @ fmt (g ''target'') @ '','' @ fmt (g ''src1'') @ '','' @ fmt (g ''src2'') @ '' '' @
                     '' '' @ fmt (g ''comment''))
           else Inr (fmt (g ''label'') @ ''   '' @ fmt (g ''opcode'') @ fmt (g ''predicate'') @ '' '' @
                     '' '' @ fmt (g ''target'') @ '','' @ fmt (g ''src1'') @ '','' @ fmt (g ''src2'') @
                     ''['' @ fmt (g ''offset'') @ ''] '' @
                     '' '' @ fmt (g ''comment'')))
      | DATA \<Rightarrow>
          (let f = fix_optional_fields flds; g = groupdict f in
           Inr (fmt (g ''label'') @ ''   '' @ fmt (g ''opcode'') @ '' '' @
                '' '' @ fmt (g ''value'') @ '' '' @
                '' '' @ fmt (g ''comment'')))
      | MEMOP \<Rightarrow>
          (case pc_relative labels (groupdict flds ''labelref'') address of
             Inl e \<Rightarrow> Inl e
           | Inr d \<Rightarrow>
               (let f = fix_optional_fields flds in
                Inr (resolved_text f (fmt (groupdict f ''opcode''))
                       (fmt (groupdict f ''target'')) d (groupdict f ''labelref''))))
      | JUMP \<Rightarrow>
          (case pc_relative labels (groupdict flds ''labelref'') address of
             Inl e \<Rightarrow> Inl e
           | Inr d \<Rightarrow>
               (let f = fix_optional_fields
                          (flds\<lparr>groupdict := (groupdict flds)(''opcode'' \<mapsto> ''ADD'')\<rparr>) in
                Inr (resolved_text f (fmt (groupdict f ''opcode'')) ''r15'' d
                       (groupdict f ''labelref''))))
      | COMMENT \<Rightarrow> Inr line))"

definition emit :: "source_file \<Rightarrow> symtab \<Rightarrow> int \<Rightarrow> string \<Rightarrow> parsed_fields \<Rightarrow> error + string" where
  "emit v = (case v of assembler_phase1 \<Rightarrow> emit_phase1 | fadfa \<Rightarrow> emit_fadfa)"

text \<open>
  The body of the \<^verbatim>\<open>try\<close> of \<^verbatim>\<open>transform\<close> on one right-stripped line: the line to
  append to \<^verbatim>\<open>transformed\<close> and the address counter after the line, or the exception.
  The counter is advanced after the line has been appended, so no exception advances it.
\<close>

definition transform_body :: "source_file \<Rightarrow> symtab \<Rightarrow> int \<Rightarrow> string \<Rightarrow> error + string \<times> int" where
  "transform_body v labels addr line =
     (case parse_line v line of
        Inl e \<Rightarrow> Inl e
      | Inr flds \<Rightarrow>
          (case emit v labels addr line flds of
             Inl e \<Rightarrow> Inl e
           | Inr text \<Rightarrow> Inr (text, if kind flds \<noteq> COMMENT then addr + 1 else addr)))"

record tstate =
  error_count :: nat
  address :: int
  transformed :: "string list"
  printed :: "string list"

text \<open>The three \<^verbatim>\<open>except\<close> clauses: the message printed for an exception on line \<open>lnum\<close>.\<close>

definition diagnostic :: "nat \<Rightarrow> string \<Rightarrow> error \<Rightarrow> string" where
  "diagnostic lnum line e = (case e of
       SyntaxError m \<Rightarrow> ''Syntax error in line '' @ str_nat lnum @ '': '' @ line
     | KeyError k \<Rightarrow> ''Unknown word in line '' @ str_nat lnum @ '': '' @ k
     | AttributeError m \<Rightarrow> ''Exception encountered in line '' @ str_nat lnum @ '': '' @ m)"

definition transform_line :: "source_file \<Rightarrow> symtab \<Rightarrow> nat \<Rightarrow> string \<Rightarrow> tstate \<Rightarrow> tstate" where
  "transform_line v labels lnum raw st =
     (let line = rstrip raw in
      case transform_body v labels (address st) line of
        Inr (text, a) \<Rightarrow> st\<lparr>address := a, transformed := transformed st @ [text]\<rparr>
      | Inl e \<Rightarrow> st\<lparr>error_count := error_count st + 1,
                     printed := printed st @ [diagnostic lnum line e]\<rparr>)"

text \<open>How a run of \<^verbatim>\<open>transform\<close> ends: it returns, or \<^verbatim>\<open>sys.exit\<close> ends the process.\<close>

datatype completion = Returned | SystemExit nat

fun transform_loop ::
  "source_file \<Rightarrow> symtab \<Rightarrow> nat \<Rightarrow> string list \<Rightarrow> tstate \<Rightarrow> tstate \<times> completion" where
  "transform_loop v labels lnum [] st = (st, Returned)"
| "transform_loop v labels lnum (raw # lines) st =
     (let st' = transform_line v labels lnum raw st in
      if error_count st' > ERROR_LIMIT
      then (st'\<lparr>printed := printed st' @ [''Too many errors; abandoning'']\<rparr>, SystemExit 1)
      else transform_loop v labels (Suc lnum) lines st')"

definition initial :: tstate where
  "initial = \<lparr>error_count = 0, address = 0, transformed = [], printed = []\<rparr>"

definition transform :: "source_file \<Rightarrow> string list \<Rightarrow> error + tstate \<times> completion" where
  "transform v lines =
     (case resolve v lines of
        Inl e \<Rightarrow> Inl e
      | Inr labels \<Rightarrow> Inr (transform_loop v labels 0 lines initial))"

subsection \<open>\<^verbatim>\<open>main\<close>\<close>



subsection \<open>Notions used to state the properties\<close>

text \<open>A group is mandatory in a pattern when every way through the pattern captures it.\<close>

primrec mandatory :: "string \<Rightarrow> regex \<Rightarrow> bool" where
  "mandatory n (Class p) = False"
| "mandatory n (Lit w) = False"
| "mandatory n (Then a b) = (mandatory n a \<or> mandatory n b)"
| "mandatory n (Alt a b) = (mandatory n a \<and> mandatory n b)"
| "mandatory n (Opt a) = False"
| "mandatory n (Star a) = False"
| "mandatory n (Plus a) = mandatory n a"
| "mandatory n (Named m a) = (n = m \<or> mandatory n a)"
| "mandatory n (NotAhead a) = False"
| "mandatory n WordB = False"
| "mandatory n Eos = False"

definition captured :: "string \<Rightarrow> mstate \<Rightarrow> bool" where
  "captured n st = (caps st n \<noteq> None)"

text \<open>
  The texts a pattern can consume, whatever the context (a lookahead, a word boundary and
  the end-of-line test consume nothing); the bodies of the groups of a given name in a
  pattern; and the relation between the captures before and after a match: the group
  is as it was, or it holds a text of one of its bodies.
\<close>

primrec in_lang :: "regex \<Rightarrow> string \<Rightarrow> bool" where
  "in_lang (Class p) u = (\<exists>c. u = [c] \<and> p c)"
| "in_lang (Lit w) u = (u = w)"
| "in_lang (Then a b) u = (\<exists>x y. u = x @ y \<and> in_lang a x \<and> in_lang b y)"
| "in_lang (Alt a b) u = (in_lang a u \<or> in_lang b u)"
| "in_lang (Opt a) u = (u = [] \<or> in_lang a u)"
| "in_lang (Star a) u = (\<exists>ws. u = concat ws \<and> (\<forall>w \<in> set ws. in_lang a w))"
| "in_lang (Plus a) u = (\<exists>w ws. u = concat (w # ws) \<and> (\<forall>w \<in> set (w # ws). in_lang a w))"
| "in_lang (Named n a) u = in_lang a u"
| "in_lang (NotAhead a) u = (u = [])"
| "in_lang WordB u = (u = [])"
| "in_lang Eos u = (u = [])"

primrec group_bodies :: "string \<Rightarrow> regex \<Rightarrow> regex list" where
  "group_bodies n (Class p) = []"
| "group_bodies n (Lit w) = []"
| "group_bodies n (Then a b) = group_bodies n a @ group_bodies n b"
| "group_bodies n (Alt a b) = group_bodies n a @ group_bodies n b"
| "group_bodies n (Opt a) = group_bodies n a"
| "group_bodies n (Star a) = group_bodies n a"
| "group_bodies n (Plus a) = group_bodies n a"
| "group_bodies n (Named m a) = (if n = m then [a] else []) @ group_bodies n a"
| "group_bodies n (NotAhead a) = []"
| "group_bodies n WordB = []"
| "group_bodies n Eos = []"

definition grp :: "string \<Rightarrow> regex list \<Rightarrow> mstate \<Rightarrow> mstate \<Rightarrow> bool" where
  "grp n bs st st' =
     (caps st' n = caps st n \<or>
      (\<exists>v. caps st' n = Some v \<and> (\<exists>b \<in> set bs. in_lang b v)))"

text \<open>
  The columns of a rewritten line, as \<^verbatim>\<open>fix_optional_fields\<close> fills them, and the
  layout of the line: label column, opcode and predicate, target, \<^verbatim>\<open>r0\<close>, \<^verbatim>\<open>r15\<close> with
  the displacement, the label referred to as a comment, the original comment.
\<close>

definition label_column :: "groups \<Rightarrow> string" where
  "label_column g = (case g ''label'' of None \<Rightarrow> ''    '' | Some l \<Rightarrow> l @ '':'')"

definition predicate_suffix :: "groups \<Rightarrow> string" where
  "predicate_suffix g = (case g ''predicate'' of None \<Rightarrow> [] | Some p \<Rightarrow> ''/'' @ p)"

definition comment_suffix :: "groups \<Rightarrow> string" where
  "comment_suffix g = (case g ''comment'' of None \<Rightarrow> [] | Some c \<Rightarrow> c)"

definition output_line ::
  "string \<Rightarrow> string \<Rightarrow> string \<Rightarrow> string \<Rightarrow> int \<Rightarrow> string \<Rightarrow> string \<Rightarrow> string" where
  "output_line lbl opc pred tgt d ref cmt =
     lbl @ ''   '' @ opc @ pred @ ''  '' @ tgt @ '',r0,r15['' @ str_int d @ ''] #'' @ ref @
     ''  '' @ cmt"

definition printed_opcode :: "source_file \<Rightarrow> string \<Rightarrow> string" where
  "printed_opcode v opc = (case v of assembler_phase1 \<Rightarrow> opc | fadfa \<Rightarrow> upper opc)"

text \<open>
  A line takes an address when it parses and is not a COMMENT; \<open>label_of\<close> is the label
  it defines, if it parses and has one; \<open>line_address\<close> is the number of lines before
  position \<open>i\<close> that take an address.
\<close>

definition takes_address :: "source_file \<Rightarrow> string \<Rightarrow> bool" where
  "takes_address v raw =
     (case parse_line v (rstrip raw) of Inl e \<Rightarrow> False | Inr f \<Rightarrow> kind f \<noteq> COMMENT)"

definition label_of :: "source_file \<Rightarrow> string \<Rightarrow> string option" where
  "label_of v raw =
     (case parse_line v (rstrip raw) of Inl e \<Rightarrow> None | Inr f \<Rightarrow> groupdict f ''label'')"

definition line_address :: "source_file \<Rightarrow> string list \<Rightarrow> nat \<Rightarrow> int" where
  "line_address v lines i = int (length (filter (takes_address v) (take i lines)))"

text \<open>The table that binds each label to the address of the last line that defines it.\<close>

definition table_of :: "source_file \<Rightarrow> string list \<Rightarrow> symtab" where
  "table_of v lines l =
     map_option (line_address v lines)
       (find (\<lambda>i. label_of v (lines ! i) = Some l) (rev [0..<length lines]))"

text \<open>
  The exception, if any, that the rewrite pass meets on a line: the line does not parse,
  or it is a MEMOP or JUMP whose label is not in the table.
\<close>

definition failure :: "source_file \<Rightarrow> symtab \<Rightarrow> string \<Rightarrow> error option" where
  "failure v labels raw =
     (case parse_line v (rstrip raw) of
        Inl e \<Rightarrow> Some e
      | Inr f \<Rightarrow>
          if kind f = MEMOP \<or> kind f = JUMP
          then (case pc_relative labels (groupdict f ''labelref'') 0 of
                  Inl e \<Rightarrow> Some e | Inr d \<Rightarrow> None)
          else None)"

definition fails :: "source_file \<Rightarrow> symtab \<Rightarrow> string \<Rightarrow> bool" where
  "fails v labels raw = (failure v labels raw \<noteq> None)"

text \<open>The loop of \<^verbatim>\<open>transform\<close> without its test of the error count.\<close>

fun steps :: "source_file \<Rightarrow> symtab \<Rightarrow> nat \<Rightarrow> string list \<Rightarrow> tstate \<Rightarrow> tstate" where
  "steps v labels lnum [] st = st"
| "steps v labels lnum (raw # lines) st =
     steps v labels (Suc lnum) lines (transform_line v labels lnum raw st)"




section \<open>Properties\<close>

lemmas class_defs = code_point_def is_space_def is_lower_def is_upper_def is_alpha_def
  is_digit_def is_hex_def is_word_def is_comment_start_def is_dot_def is_minus_def

lemmas pattern_defs = spaces_def label_name_def optional_label_def optional_predicate_def
  register_name_def comment_text_def trailing_comment_def data_value_def
  ASM_COMMENT_PAT_def ASM_FULL_PAT_def lda_free_letter_def memop_opcode_def
  ASM_MEMOP_PAT_def jump_opcode_def ASM_JUMP_PAT_def ASM_DATA_PAT_def PATTERNS_def

lemmas matcher_defs = fullmatch_def word_before_def word_after_def

lemmas render_defs = output_line_def label_column_def predicate_suffix_def comment_suffix_def
  printed_opcode_def str_int_def str_nat.simps digit_char_def rstrip_def
  char_of_def bit_Suc_0_iff upper_def to_upper_def

subsection \<open>The matcher\<close>

lemma star_induct_rule:
  assumes step: "\<And>s s'. s' \<in> set (f s) \<Longrightarrow> P s \<Longrightarrow> P s'"
    and "P st" and "st' \<in> set (star f n st)"
  shows "P st'"
  using assms(2,3)
proof (induction n arbitrary: st)
  case 0
  then show ?case by simp
next
  case (Suc n)
  then show ?case by (auto split: if_splits dest: step)
qed

lemma match_keeps_group:
  "st' \<in> set (match r st) \<Longrightarrow> captured n st \<Longrightarrow> captured n st'"
proof (induction r arbitrary: st st')
  case (Star r)
  have "st' \<in> set (star (match r) (length (rest st)) st)"
    using Star.prems(1) by simp
  with Star.prems(2) show ?case
    using star_induct_rule[where P="captured n" and f="match r"] Star.IH by blast
next
  case (Plus r)
  from Plus.prems obtain m
    where m: "m \<in> set (match r st)" "st' \<in> set (star (match r) (length (rest m)) m)"
    by auto
  have "captured n m"
    using Plus.IH[OF m(1)] Plus.prems(2) by simp
  then show ?case
    using m(2) star_induct_rule[where P="captured n" and f="match r"] Plus.IH by blast
qed (auto simp: captured_def split: list.splits if_splits)

lemma match_mandatory:
  "st' \<in> set (match r st) \<Longrightarrow> mandatory n r \<Longrightarrow> captured n st'"
proof (induction r arbitrary: st st')
  case (Then a b)
  from Then.prems(1) obtain m where m: "m \<in> set (match a st)" "st' \<in> set (match b m)"
    by auto
  show ?case
  proof (cases "mandatory n a")
    case True
    then have "captured n m"
      using Then.IH(1)[OF m(1)] by simp
    then show ?thesis
      using match_keeps_group[OF m(2)] by simp
  next
    case False
    then have "mandatory n b"
      using Then.prems(2) by simp
    then show ?thesis
      using Then.IH(2)[OF m(2)] by simp
  qed
next
  case (Plus r)
  from Plus.prems obtain m
    where m: "m \<in> set (match r st)" "st' \<in> set (star (match r) (length (rest m)) m)"
    by auto
  have "captured n m"
    using Plus.IH[OF m(1)] Plus.prems(2) by simp
  then show ?case
    using m(2) star_induct_rule[where P="captured n" and f="match r"] match_keeps_group
    by blast
next
  case (Named m a)
  then show ?case by (auto simp: captured_def)
qed (auto split: list.splits if_splits)

lemma fullmatch_SomeD:
  "fullmatch r s = Some g \<Longrightarrow>
   \<exists>st'. st' \<in> set (match r \<lparr>caps = Map.empty, prev = None, rest = s\<rparr>) \<and>
         rest st' = [] \<and> caps st' = g"
  unfolding fullmatch_def
  by (auto split: list.splits dest!: filter_eq_ConsD)

lemma fullmatch_mandatory:
  "fullmatch r s = Some g \<Longrightarrow> mandatory n r \<Longrightarrow> g n \<noteq> None"
  using match_mandatory unfolding captured_def
  by (fastforce dest!: fullmatch_SomeD)

lemma star_consumed:
  assumes step: "\<And>s s'. s' \<in> set (f s) \<Longrightarrow> \<exists>u. rest s = u @ rest s' \<and> P u"
    and "st' \<in> set (star f n st)"
  shows "\<exists>ws. rest st = concat ws @ rest st' \<and> (\<forall>w \<in> set ws. P w)"
  using assms(2)
proof (induction n arbitrary: st)
  case 0
  then have "rest st = concat [] @ rest st'" by simp
  then show ?case by (metis empty_iff list.set(1))
next
  case (Suc n)
  from Suc.prems consider "st' = st"
    | m where "m \<in> set (f st)" "st' \<in> set (star f n m)"
    by (auto split: if_splits)
  then show ?case
  proof cases
    case 1
    then have "rest st = concat [] @ rest st'" by simp
    then show ?thesis by (metis empty_iff list.set(1))
  next
    case 2
    from step[OF 2(1)] obtain u where u: "rest st = u @ rest m" "P u" by blast
    from Suc.IH[OF 2(2)] obtain ws where ws: "rest m = concat ws @ rest st'" "\<forall>w \<in> set ws. P w"
      by blast
    have "rest st = concat (u # ws) @ rest st' \<and> (\<forall>w \<in> set (u # ws). P w)"
      using u ws by simp
    then show ?thesis by blast
  qed
qed

lemma match_sound:
  "st' \<in> set (match r st) \<Longrightarrow> \<exists>u. rest st = u @ rest st' \<and> in_lang r u"
proof (induction r arbitrary: st st')
  case (Class p)
  then have "\<exists>c. rest st = [c] @ rest st' \<and> p c"
    by (cases "rest st") (auto split: if_splits)
  then show ?case by auto
next
  case (Lit w)
  then show ?case by (auto simp: prefix_def split: if_splits)
next
  case (Then a b)
  from Then.prems obtain m where m: "m \<in> set (match a st)" "st' \<in> set (match b m)"
    by auto
  from Then.IH(1)[OF m(1)] obtain x where x: "rest st = x @ rest m" "in_lang a x" by blast
  from Then.IH(2)[OF m(2)] obtain y where y: "rest m = y @ rest st'" "in_lang b y" by blast
  have "rest st = (x @ y) @ rest st'" using x y by simp
  then show ?case using x y by (metis in_lang.simps(3))
next
  case (Alt a b)
  from Alt.prems consider "st' \<in> set (match a st)" | "st' \<in> set (match b st)"
    by auto
  then show ?case
  proof cases
    case 1
    from Alt.IH(1)[OF 1] show ?thesis by auto
  next
    case 2
    from Alt.IH(2)[OF 2] show ?thesis by auto
  qed
next
  case (Opt a)
  from Opt.prems consider "st' \<in> set (match a st)" | "st' = st"
    by auto
  then show ?case
  proof cases
    case 1
    from Opt.IH[OF 1] show ?thesis by auto
  next
    case 2
    then show ?thesis by simp
  qed
next
  case (Star a)
  have "st' \<in> set (star (match a) (length (rest st)) st)"
    using Star.prems by simp
  from star_consumed[where P="in_lang a" and f="match a", OF Star.IH this]
  show ?case by auto
next
  case (Plus a)
  from Plus.prems obtain m
    where m: "m \<in> set (match a st)" "st' \<in> set (star (match a) (length (rest m)) m)"
    by auto
  from Plus.IH[OF m(1)] obtain w where w: "rest st = w @ rest m" "in_lang a w" by blast
  from star_consumed[where P="in_lang a" and f="match a", OF Plus.IH m(2)]
  obtain ws where ws: "rest m = concat ws @ rest st'" "\<forall>w \<in> set ws. in_lang a w" by blast
  have "rest st = concat (w # ws) @ rest st' \<and> (\<forall>x \<in> set (w # ws). in_lang a x)"
    using w ws by simp
  then show ?case by (metis in_lang.simps(7))
next
  case (Named n a)
  then show ?case by auto
next
  case (NotAhead a)
  then show ?case by (auto split: if_splits)
next
  case WordB
  then show ?case by (auto split: if_splits)
next
  case Eos
  then show ?case by (auto split: if_splits)
qed

lemma grp_refl: "grp n bs st st"
  by (simp add: grp_def)

lemma grp_trans: "grp n bs s1 s2 \<Longrightarrow> grp n cs s2 s3 \<Longrightarrow> grp n (bs @ cs) s1 s3"
  unfolding grp_def by auto

lemma grp_mono: "grp n bs s1 s2 \<Longrightarrow> set bs \<subseteq> set cs \<Longrightarrow> grp n cs s1 s2"
  unfolding grp_def by auto

lemma star_grp:
  assumes step: "\<And>s s'. s' \<in> set (f s) \<Longrightarrow> grp n bs s s'"
    and "st' \<in> set (star f k st)"
  shows "grp n bs st st'"
  using assms(2)
proof (induction k arbitrary: st)
  case 0
  then show ?case by (simp add: grp_refl)
next
  case (Suc k)
  from Suc.prems consider "st' = st"
    | m where "m \<in> set (f st)" "st' \<in> set (star f k m)"
    by (auto split: if_splits)
  then show ?case
  proof cases
    case 1
    then show ?thesis by (simp add: grp_refl)
  next
    case 2
    from grp_trans[OF step[OF 2(1)] Suc.IH[OF 2(2)]] show ?thesis
      by (rule grp_mono) simp
  qed
qed

lemma match_grp:
  "st' \<in> set (match r st) \<Longrightarrow> grp n (group_bodies n r) st st'"
proof (induction r arbitrary: st st')
  case (Class p)
  then show ?case by (auto simp: grp_def split: list.splits if_splits)
next
  case (Lit w)
  then show ?case by (auto simp: grp_def split: if_splits)
next
  case (Then a b)
  from Then.prems obtain m where m: "m \<in> set (match a st)" "st' \<in> set (match b m)"
    by auto
  from grp_trans[OF Then.IH(1)[OF m(1)] Then.IH(2)[OF m(2)]] show ?case
    by simp
next
  case (Alt a b)
  from Alt.prems consider "st' \<in> set (match a st)" | "st' \<in> set (match b st)"
    by auto
  then show ?case
  proof cases
    case 1
    from Alt.IH(1)[OF 1] show ?thesis by (rule grp_mono) simp
  next
    case 2
    from Alt.IH(2)[OF 2] show ?thesis by (rule grp_mono) simp
  qed
next
  case (Opt a)
  then show ?case by (auto simp: grp_refl)
next
  case (Star a)
  have "st' \<in> set (star (match a) (length (rest st)) st)"
    using Star.prems by simp
  from star_grp[where f="match a", OF Star.IH this]
  show ?case by simp
next
  case (Plus a)
  from Plus.prems obtain m
    where m: "m \<in> set (match a st)" "st' \<in> set (star (match a) (length (rest m)) m)"
    by auto
  from grp_trans[OF Plus.IH[OF m(1)] star_grp[where f="match a", OF Plus.IH m(2)]]
  show ?case by (rule grp_mono) auto
next
  case (Named k a)
  from Named.prems obtain m where m: "m \<in> set (match a st)"
    "st' = m\<lparr>caps := (caps m)(k \<mapsto> take (length (rest st) - length (rest m)) (rest st))\<rparr>"
    by auto
  from match_sound[OF m(1)] obtain u where u: "rest st = u @ rest m" "in_lang a u" by blast
  then have t: "take (length (rest st) - length (rest m)) (rest st) = u" by simp
  show ?case
  proof (cases "n = k")
    case True
    then show ?thesis using m(2) t u(2) by (simp add: grp_def)
  next
    case False
    then show ?thesis using Named.IH[OF m(1)] m(2) by (simp add: grp_def)
  qed
next
  case (NotAhead a)
  then show ?case by (auto simp: grp_refl split: if_splits)
next
  case WordB
  then show ?case by (auto simp: grp_refl split: if_splits)
next
  case Eos
  then show ?case by (auto simp: grp_refl split: if_splits)
qed

lemma fullmatch_group:
  assumes "fullmatch r s = Some g" "g n = Some v"
  shows "\<exists>b \<in> set (group_bodies n r). in_lang b v"
proof -
  from fullmatch_SomeD[OF assms(1)] obtain st' where
    st: "st' \<in> set (match r \<lparr>caps = Map.empty, prev = None, rest = s\<rparr>)" "caps st' = g"
    by blast
  from match_grp[OF st(1), of n] assms(2) st(2) show ?thesis
    by (auto simp: grp_def)
qed



lemma empty_Then: "match a st = [] \<Longrightarrow> match (Then a b) st = []"
  by simp
















subsection \<open>Classification\<close>

lemma parse_with_find:
  "parse_with ps line =
     (case find (\<lambda>p. fullmatch (fst p) line \<noteq> None) ps of
        None \<Rightarrow> Inl (SyntaxError (''Assembler syntax error in '' @ line))
      | Some p \<Rightarrow> Inr \<lparr>kind = snd p, groupdict = the (fullmatch (fst p) line)\<rparr>)"
  by (induction ps line rule: parse_with.induct) (auto split: option.splits)

text \<open>
  Claim C3. \<^verbatim>\<open>parse_line\<close> tries the grammars in the order FULL, DATA, COMMENT, MEMOP,
  JUMP and returns the groups of the first one that matches the whole line, tagged with
  its kind. So a line that the FULL grammar matches is classified FULL, whatever the
  later grammars would say; and a line that no grammar matches raises \<^verbatim>\<open>SyntaxError\<close>.
  This holds for both files.
\<close>

theorem parse_line_first_full_match:
  "map snd (PATTERNS v) = [FULL, DATA, COMMENT, MEMOP, JUMP] \<and>
   map fst (PATTERNS v) =
     [ASM_FULL_PAT, ASM_DATA_PAT v, ASM_COMMENT_PAT, ASM_MEMOP_PAT v, ASM_JUMP_PAT v] \<and>
   parse_line v line =
     (case find (\<lambda>p. fullmatch (fst p) line \<noteq> None) (PATTERNS v) of
        None \<Rightarrow> Inl (SyntaxError (''Assembler syntax error in '' @ line))
      | Some p \<Rightarrow> Inr \<lparr>kind = snd p, groupdict = the (fullmatch (fst p) line)\<rparr>) \<and>
   (fullmatch ASM_FULL_PAT line \<noteq> None \<longrightarrow>
      parse_line v line = Inr \<lparr>kind = FULL, groupdict = the (fullmatch ASM_FULL_PAT line)\<rparr>) \<and>
   ((\<forall>p \<in> set (PATTERNS v). fullmatch (fst p) line = None) \<longrightarrow>
      parse_line v line = Inl (SyntaxError (''Assembler syntax error in '' @ line)))"
proof -
  have a: "parse_line v line =
     (case find (\<lambda>p. fullmatch (fst p) line \<noteq> None) (PATTERNS v) of
        None \<Rightarrow> Inl (SyntaxError (''Assembler syntax error in '' @ line))
      | Some p \<Rightarrow> Inr \<lparr>kind = snd p, groupdict = the (fullmatch (fst p) line)\<rparr>)"
    unfolding parse_line_def by (rule parse_with_find)
  have b: "fullmatch ASM_FULL_PAT line \<noteq> None \<longrightarrow>
      parse_line v line = Inr \<lparr>kind = FULL, groupdict = the (fullmatch ASM_FULL_PAT line)\<rparr>"
    by (auto simp: parse_line_def PATTERNS_def)
  have c: "(\<forall>p \<in> set (PATTERNS v). fullmatch (fst p) line = None) \<longrightarrow>
      parse_line v line = Inl (SyntaxError (''Assembler syntax error in '' @ line))"
    by (simp add: parse_line_def PATTERNS_def)
  show ?thesis
    using a b c by (simp add: PATTERNS_def)
qed

theorem parse_line_first_full_match_witness:
  "fullmatch ASM_FULL_PAT ''ADD r1,r2,r3'' \<noteq> None \<and>
   parse_line assembler_phase1 ''ADD r1,r2,r3'' =
     Inr \<lparr>kind = FULL, groupdict = the (fullmatch ASM_FULL_PAT ''ADD r1,r2,r3'')\<rparr> \<and>
   list_all (\<lambda>p. fullmatch (fst p) ''LDA r1,x'' = None) (PATTERNS fadfa) \<and>
   parse_line fadfa ''LDA r1,x'' = Inl (SyntaxError ''Assembler syntax error in LDA r1,x'')"
proof -
  have h1: "fullmatch ASM_FULL_PAT ''ADD r1,r2,r3'' \<noteq> None"
    by (simp add: matcher_defs pattern_defs class_defs)
  have h2: "\<forall>p \<in> set (PATTERNS fadfa). fullmatch (fst p) ''LDA r1,x'' = None"
    by (simp add: matcher_defs pattern_defs class_defs)
  have "parse_line assembler_phase1 ''ADD r1,r2,r3'' =
     Inr \<lparr>kind = FULL, groupdict = the (fullmatch ASM_FULL_PAT ''ADD r1,r2,r3'')\<rparr>"
    using h1 parse_line_first_full_match [of assembler_phase1 "''ADD r1,r2,r3''"] by blast
  moreover
  have "parse_line fadfa ''LDA r1,x'' =
     Inl (SyntaxError (''Assembler syntax error in '' @ ''LDA r1,x''))"
    using h2 parse_line_first_full_match [of fadfa "''LDA r1,x''"] by blast
  ultimately show ?thesis
    using h1 h2 by (simp add: list_all_iff)
qed

subsection \<open>One line of the rewrite pass\<close>

lemma parse_line_kindD:
  assumes "parse_line v line = Inr f"
  shows "kind f = FULL \<Longrightarrow> fullmatch ASM_FULL_PAT line = Some (groupdict f)"
    and "kind f = DATA \<Longrightarrow> fullmatch (ASM_DATA_PAT v) line = Some (groupdict f)"
    and "kind f = COMMENT \<Longrightarrow> fullmatch ASM_COMMENT_PAT line = Some (groupdict f)"
    and "kind f = MEMOP \<Longrightarrow> fullmatch (ASM_MEMOP_PAT v) line = Some (groupdict f)"
    and "kind f = JUMP \<Longrightarrow> fullmatch (ASM_JUMP_PAT v) line = Some (groupdict f)"
  using assms
  by (auto simp: parse_line_def PATTERNS_def split: option.splits)

lemma mandatory_groups:
  "mandatory ''opcode'' ASM_FULL_PAT" "mandatory ''target'' ASM_FULL_PAT"
  "mandatory ''src1'' ASM_FULL_PAT" "mandatory ''src2'' ASM_FULL_PAT"
  "mandatory ''opcode'' (ASM_DATA_PAT v)"
  "mandatory ''opcode'' (ASM_MEMOP_PAT v)" "mandatory ''target'' (ASM_MEMOP_PAT v)"
  "mandatory ''labelref'' (ASM_MEMOP_PAT v)"
  "mandatory ''opcode'' (ASM_JUMP_PAT v)" "mandatory ''labelref'' (ASM_JUMP_PAT v)"
  by (cases v; simp add: ASM_FULL_PAT_def ASM_DATA_PAT_def ASM_MEMOP_PAT_def ASM_JUMP_PAT_def)+

lemma parsed_opcode:
  assumes "parse_line v line = Inr f" "kind f \<noteq> COMMENT"
  shows "groupdict f ''opcode'' \<noteq> None"
  using assms(2) parse_line_kindD[OF assms(1)] fullmatch_mandatory mandatory_groups
  by (cases "kind f") metis+


lemma parsed_target:
  assumes "parse_line v line = Inr f" "kind f = MEMOP \<or> kind f = FULL"
  shows "groupdict f ''target'' \<noteq> None"
  using assms(2) parse_line_kindD[OF assms(1)] fullmatch_mandatory mandatory_groups
  by metis

lemma emit_MEMOP:
  assumes "kind f = MEMOP" "groupdict f ''labelref'' = Some ref" "labels ref = Some a"
    "groupdict f ''opcode'' = Some opc" "groupdict f ''target'' = Some tgt"
  shows "emit v labels addr line f =
     Inr (output_line (label_column (groupdict f)) (printed_opcode v opc)
           (predicate_suffix (groupdict f)) tgt (a - addr) ref (comment_suffix (groupdict f)))"
  using assms
  by (cases v)
     (simp_all add: emit_def emit_phase1_def emit_fadfa_def upper_opcode_def pc_relative_def
       fix_optional_fields_def resolved_text_def fmt_def output_line_def label_column_def
       predicate_suffix_def comment_suffix_def printed_opcode_def Let_def
       split: option.splits)

lemma emit_JUMP:
  assumes "kind f = JUMP" "groupdict f ''labelref'' = Some ref" "labels ref = Some a"
    "groupdict f ''opcode'' = Some opc"
  shows "emit v labels addr line f =
     Inr (output_line (label_column (groupdict f)) ''ADD''
           (predicate_suffix (groupdict f)) ''r15'' (a - addr) ref (comment_suffix (groupdict f)))"
  using assms
  by (cases v)
     (simp_all add: emit_def emit_phase1_def emit_fadfa_def upper_opcode_def pc_relative_def
       fix_optional_fields_def resolved_text_def fmt_def output_line_def label_column_def
       predicate_suffix_def comment_suffix_def printed_opcode_def Let_def
       split: option.splits)

lemma pc_relative_isl:
  "pc_relative labels r a = Inl e \<longleftrightarrow> pc_relative labels r 0 = Inl e"
  by (auto simp: pc_relative_def split: option.splits)

lemma pc_relative_cases:
  "(\<exists>ref t. r = Some ref \<and> labels ref = Some t \<and> pc_relative labels r a = Inr (t - a)) \<or>
   (pc_relative labels r a = Inl (KeyError (key_repr r)))"
  by (auto simp: pc_relative_def split: option.splits)

lemma emit_other:
  assumes "parse_line v line = Inr f" "kind f \<noteq> MEMOP" "kind f \<noteq> JUMP"
  shows "\<exists>text. emit v labels a line f = Inr text"
proof (cases v)
  case assembler_phase1
  then show ?thesis
    using assms(2,3) by (cases "kind f") (simp_all add: emit_def emit_phase1_def)
next
  case fadfa
  show ?thesis
  proof (cases "kind f = COMMENT")
    case True
    then show ?thesis
      using fadfa by (simp add: emit_def emit_fadfa_def upper_opcode_def)
  next
    case False
    then obtain opc where "groupdict f ''opcode'' = Some opc"
      using parsed_opcode[OF assms(1)] by auto
    then show ?thesis
      using fadfa False assms(2,3)
      by (cases "kind f") (simp_all add: emit_def emit_fadfa_def upper_opcode_def Let_def)
  qed
qed

lemma transform_body_failure:
  "failure v labels raw = Some e \<Longrightarrow> transform_body v labels a (rstrip raw) = Inl e"
proof -
  assume F: "failure v labels raw = Some e"
  show ?thesis
  proof (cases "parse_line v (rstrip raw)")
    case (Inl e')
    then show ?thesis
      using F by (simp add: failure_def transform_body_def)
  next
    case (Inr f)
    with F have k: "kind f = MEMOP \<or> kind f = JUMP"
      and pc: "pc_relative labels (groupdict f ''labelref'') 0 = Inl e"
      by (auto simp: failure_def split: if_splits sum.splits)
    from pc have pc': "pc_relative labels (groupdict f ''labelref'') a = Inl e"
      using pc_relative_isl by blast
    obtain opc where opc: "groupdict f ''opcode'' = Some opc"
      using parsed_opcode[OF Inr] k by auto
    have "emit v labels a (rstrip raw) f = Inl e"
      using k pc' opc
      by (cases v; cases "kind f")
         (simp_all add: emit_def emit_phase1_def emit_fadfa_def upper_opcode_def Let_def)
    then show ?thesis
      using Inr by (simp add: transform_body_def)
  qed
qed

lemma transform_body_success:
  assumes "failure v labels raw = None"
  shows "\<exists>text. transform_body v labels a (rstrip raw) =
           Inr (text, if takes_address v raw then a + 1 else a)"
proof (cases "parse_line v (rstrip raw)")
  case (Inl e')
  then show ?thesis
    using assms by (simp add: failure_def)
next
  case (Inr f)
  have "\<exists>text. emit v labels a (rstrip raw) f = Inr text"
  proof (cases "kind f = MEMOP \<or> kind f = JUMP")
    case False
    then show ?thesis
      using emit_other[OF Inr] by simp
  next
    case True
    with assms Inr obtain d where "pc_relative labels (groupdict f ''labelref'') 0 = Inr d"
      by (auto simp: failure_def split: sum.splits)
    then obtain ref t where r: "groupdict f ''labelref'' = Some ref" "labels ref = Some t"
      using pc_relative_cases[of "groupdict f ''labelref''" labels 0] by auto
    obtain opc where opc: "groupdict f ''opcode'' = Some opc"
      using parsed_opcode[OF Inr] True by auto
    show ?thesis
    proof (cases "kind f = MEMOP")
      case True
      then obtain tgt where "groupdict f ''target'' = Some tgt"
        using parsed_target[OF Inr] by auto
      then show ?thesis
        using emit_MEMOP[of f ref labels t opc _ v a "rstrip raw"] True r opc by simp
    next
      case False
      then have "kind f = JUMP" using True by simp
      then show ?thesis
        using emit_JUMP[of f ref labels t opc v a "rstrip raw"] r opc by simp
    qed
  qed
  then show ?thesis
    using Inr by (auto simp: transform_body_def takes_address_def)
qed

lemma transform_line_failure:
  "failure v labels raw = Some e \<Longrightarrow>
   transform_line v labels lnum raw st =
     st\<lparr>error_count := error_count st + 1,
        printed := printed st @ [diagnostic lnum (rstrip raw) e]\<rparr>"
  by (simp add: transform_line_def transform_body_failure)

lemma transform_line_success:
  assumes "failure v labels raw = None"
  shows "\<exists>text. transform_body v labels (address st) (rstrip raw) =
           Inr (text, if takes_address v raw then address st + 1 else address st) \<and>
         transform_line v labels lnum raw st =
           st\<lparr>address := (if takes_address v raw then address st + 1 else address st),
              transformed := transformed st @ [text]\<rparr>"
  using transform_body_success[OF assms, of "address st"]
  by (auto simp: transform_line_def)

lemma concat_all_singletons:
  assumes "\<forall>w \<in> set ws. \<exists>c. w = [c] \<and> p c"
  shows "list_all p (concat ws) \<and> length (concat ws) = length ws"
  using assms by (induction ws) auto

lemma in_lang_Star_Class: "in_lang (Star (Class p)) u \<Longrightarrow> list_all p u"
  using concat_all_singletons[of _ p] by auto

lemma in_lang_Plus_Class: "in_lang (Plus (Class p)) u \<Longrightarrow> u \<noteq> [] \<and> list_all p u"
proof -
  assume "in_lang (Plus (Class p)) u"
  then obtain w ws where u: "u = concat (w # ws)" "\<forall>x \<in> set (w # ws). \<exists>c. x = [c] \<and> p c"
    by auto
  then obtain c where "w = [c]"
    by auto
  with concat_all_singletons[OF u(2)] u(1) show ?thesis
    by auto
qed

lemma in_lang_Plus_lda_free: "in_lang (Plus lda_free_letter) u \<Longrightarrow> u \<noteq> [] \<and> list_all is_alpha u"
proof -
  assume "in_lang (Plus lda_free_letter) u"
  then obtain w ws where u: "u = concat (w # ws)"
    "\<forall>x \<in> set (w # ws). \<exists>c. x = [c] \<and> is_alpha c"
    by (auto simp: lda_free_letter_def)
  then obtain c where "w = [c]"
    by auto
  with concat_all_singletons[OF u(2)] u(1) show ?thesis
    by auto
qed

lemma group_bodies_predicate:
  "pat \<in> set (map fst (PATTERNS v)) \<Longrightarrow>
   set (group_bodies ''predicate'' pat) \<subseteq> {Plus (Class is_upper)}"
  by (cases v) (auto simp: pattern_defs)

lemma parse_line_fullmatch:
  assumes "parse_line v line = Inr f"
  shows "\<exists>p \<in> set (PATTERNS v). fullmatch (fst p) line = Some (groupdict f) \<and> kind f = snd p"
  using assms
  by (auto simp: parse_line_def PATTERNS_def split: option.splits)

lemma parsed_predicate_upper:
  assumes "parse_line v line = Inr f" "groupdict f ''predicate'' = Some p"
  shows "p \<noteq> [] \<and> list_all is_upper p"
proof -
  from parse_line_fullmatch[OF assms(1)] obtain pat where
    pat: "pat \<in> set (map fst (PATTERNS v))" "fullmatch pat line = Some (groupdict f)"
    by force
  from fullmatch_group[OF pat(2) assms(2)] obtain b where
    b: "b \<in> set (group_bodies ''predicate'' pat)" "in_lang b p"
    by blast
  have "b = Plus (Class is_upper)"
    using group_bodies_predicate[OF pat(1)] b(1) by auto
  then show ?thesis
    using b(2) in_lang_Plus_Class by blast
qed

lemma group_bodies_opcode:
  "pat \<in> set (map fst (PATTERNS v)) \<Longrightarrow>
   set (group_bodies ''opcode'' pat) \<subseteq>
     {Plus (Class is_alpha), Then WordB (Plus lda_free_letter),
      Lit ''DATA'', Alt (Lit ''DATA'') (Lit ''data''),
      Lit ''JUMP'', Alt (Lit ''JUMP'') (Lit ''jump'')}"
  by (cases v) (auto simp: pattern_defs)

lemma keyword_letters:
  "list_all is_alpha ''DATA''" "list_all is_alpha ''data''"
  "list_all is_alpha ''JUMP''" "list_all is_alpha ''jump''"
  by (simp_all add: class_defs)

lemma parsed_opcode_letters:
  assumes "parse_line v line = Inr f" "groupdict f ''opcode'' = Some opc"
  shows "opc \<noteq> [] \<and> list_all is_alpha opc"
proof -
  from parse_line_fullmatch[OF assms(1)] obtain pat where
    pat: "pat \<in> set (map fst (PATTERNS v))" "fullmatch pat line = Some (groupdict f)"
    by force
  from fullmatch_group[OF pat(2) assms(2)] obtain b where
    b: "b \<in> set (group_bodies ''opcode'' pat)" "in_lang b opc"
    by blast
  have "b \<in> {Plus (Class is_alpha), Then WordB (Plus lda_free_letter),
              Lit ''DATA'', Alt (Lit ''DATA'') (Lit ''data''),
              Lit ''JUMP'', Alt (Lit ''JUMP'') (Lit ''jump'')}"
    using group_bodies_opcode[OF pat(1)] b(1) by auto
  then consider "in_lang (Plus (Class is_alpha)) opc" | "in_lang (Plus lda_free_letter) opc"
    | "opc = ''DATA''" | "opc = ''data''" | "opc = ''JUMP''" | "opc = ''jump''"
    using b(2) by auto
  then show ?thesis
    using in_lang_Plus_Class[of is_alpha opc] in_lang_Plus_lda_free[of opc] keyword_letters
    by cases auto
qed

lemma parsed_keyword:
  assumes "parse_line v line = Inr f" "groupdict f ''opcode'' = Some opc"
  shows "kind f = DATA \<Longrightarrow> opc = ''DATA'' \<or> v = fadfa \<and> opc = ''data''"
    and "kind f = JUMP \<Longrightarrow> opc = ''JUMP'' \<or> v = fadfa \<and> opc = ''jump''"
proof -
  assume k: "kind f = DATA"
  from parse_line_kindD(2)[OF assms(1) k] have m: "fullmatch (ASM_DATA_PAT v) line = Some (groupdict f)" .
  from fullmatch_group[OF m assms(2)] show "opc = ''DATA'' \<or> v = fadfa \<and> opc = ''data''"
    by (cases v) (auto simp: pattern_defs)
next
  assume k: "kind f = JUMP"
  from parse_line_kindD(5)[OF assms(1) k] have m: "fullmatch (ASM_JUMP_PAT v) line = Some (groupdict f)" .
  from fullmatch_group[OF m assms(2)] show "opc = ''JUMP'' \<or> v = fadfa \<and> opc = ''jump''"
    by (cases v) (auto simp: pattern_defs)
qed

lemma to_upper_alpha: "is_alpha c \<Longrightarrow> is_upper (to_upper c)"
  by (auto simp: class_defs to_upper_def Let_def of_char_of)

lemma upper_letters: "list_all is_alpha s \<Longrightarrow> list_all is_upper (upper s)"
  by (induction s) (auto simp: upper_def to_upper_alpha)

subsection \<open>Integer literals\<close>

















subsection \<open>The symbol table\<close>

lemma resolve_line_eq:
  "resolve_line v raw (tab, a) =
     Inr ((case label_of v raw of None \<Rightarrow> tab | Some l \<Rightarrow> tab(l \<mapsto> a)),
          (if takes_address v raw then a + 1 else a))"
  by (auto simp: resolve_line_def resolve_body_def label_of_def takes_address_def split: sum.splits option.splits)

lemma resolve_loop_append:
  "resolve_loop v (xs @ ys) s =
     (case resolve_loop v xs s of Inl e \<Rightarrow> Inl e | Inr s' \<Rightarrow> resolve_loop v ys s')"
  by (induction xs arbitrary: s) (auto split: sum.splits)

lemma line_address_append:
  "i \<le> length xs \<Longrightarrow> line_address v (xs @ ys) i = line_address v xs i"
  by (simp add: line_address_def)

lemma table_of_snoc:
  "table_of v (xs @ [x]) l =
     (if label_of v x = Some l then Some (line_address v xs (length xs)) else table_of v xs l)"
proof -
  have f: "find (\<lambda>i. label_of v ((xs @ [x]) ! i) = Some l) (rev [0..<length xs]) =
           find (\<lambda>i. label_of v (xs ! i) = Some l) (rev [0..<length xs])"
    by (rule find_cong) (auto simp: nth_append)
  have la: "map_option (line_address v (xs @ [x])) r = map_option (line_address v xs) r"
    if "r = find (\<lambda>i. label_of v (xs ! i) = Some l) (rev [0..<length xs])" for r
  proof (cases r)
    case None
    then show ?thesis by simp
  next
    case (Some i)
    then have "i \<in> set (rev [0..<length xs])"
      using that by (metis find_Some_iff nth_mem)
    then show ?thesis
      using Some by (simp add: line_address_append)
  qed
  show ?thesis
    using f la by (simp add: table_of_def line_address_append)
qed

lemma resolve_loop_table:
  "resolve_loop v lines (Map.empty, 0) =
     Inr (table_of v lines, line_address v lines (length lines))"
proof (induction lines rule: rev_induct)
  case Nil
  then show ?case by (simp add: table_of_def line_address_def fun_eq_iff)
next
  case (snoc x xs)
  have "line_address v (xs @ [x]) (length (xs @ [x])) =
        (if takes_address v x then line_address v xs (length xs) + 1 else line_address v xs (length xs))"
    by (simp add: line_address_def)
  moreover have "table_of v (xs @ [x]) =
        (case label_of v x of None \<Rightarrow> table_of v xs
         | Some l \<Rightarrow> (table_of v xs)(l \<mapsto> line_address v xs (length xs)))"
    by (auto simp: fun_eq_iff table_of_snoc split: option.splits)
  ultimately show ?case
    using snoc by (simp add: resolve_loop_append resolve_line_eq)
qed

lemma resolve_table: "resolve v lines = Inr (table_of v lines)"
  by (simp add: resolve_def resolve_loop_table)

lemma table_of_undefined:
  "table_of v lines l = None \<longleftrightarrow> Some l \<notin> set (map (label_of v) lines)"
proof (induction lines rule: rev_induct)
  case Nil
  then show ?case by (simp add: table_of_def)
next
  case (snoc x xs)
  then show ?case
    by (subst table_of_snoc) auto
qed

lemma table_of_last_definition:
  "label_of v x = Some l \<Longrightarrow> Some l \<notin> set (map (label_of v) ys) \<Longrightarrow>
   table_of v (xs @ x # ys) l = Some (int (length (filter (takes_address v) xs)))"
proof (induction ys rule: rev_induct)
  case Nil
  then show ?case
    by (simp add: table_of_snoc line_address_def)
next
  case (snoc y ys)
  have "table_of v ((xs @ x # ys) @ [y]) l = table_of v (xs @ x # ys) l"
    using snoc.prems(2) by (subst table_of_snoc) auto
  then show ?case
    using snoc by simp
qed

subsection \<open>The loop of the rewrite pass\<close>

lemma steps_append:
  "steps v labels n (xs @ ys) st = steps v labels (n + length xs) ys (steps v labels n xs st)"
  by (induction xs arbitrary: n st) simp_all

lemma transform_line_error_count:
  "error_count (transform_line v labels n x st) =
     error_count st + (if fails v labels x then 1 else 0)"
proof (cases "failure v labels x")
  case None
  then show ?thesis
    using transform_line_success[OF None, of st n] by (auto simp: fails_def)
next
  case (Some e)
  then show ?thesis
    by (simp add: transform_line_failure fails_def)
qed

lemma transform_line_address:
  "address (transform_line v labels n x st) =
     address st + (if takes_address v x \<and> \<not> fails v labels x then 1 else 0)"
proof (cases "failure v labels x")
  case None
  then show ?thesis
    using transform_line_success[OF None, of st n] by (auto simp: fails_def)
next
  case (Some e)
  then show ?thesis
    by (simp add: transform_line_failure fails_def)
qed


lemma steps_address:
  "address (steps v labels n xs st) =
     address st + int (length (filter (\<lambda>x. takes_address v x \<and> \<not> fails v labels x) xs))"
  by (induction xs arbitrary: n st) (simp_all add: transform_line_address)

lemma transform_loop_returns:
  "error_count st + length (filter (fails v labels) xs) \<le> ERROR_LIMIT \<Longrightarrow>
   transform_loop v labels n xs st = (steps v labels n xs st, Returned)"
proof (induction xs arbitrary: n st)
  case Nil
  then show ?case by simp
next
  case (Cons x xs)
  let ?st = "transform_line v labels n x st"
  have e: "error_count ?st + length (filter (fails v labels) xs) \<le> ERROR_LIMIT"
    using Cons.prems by (simp add: transform_line_error_count split: if_splits)
  then have "\<not> error_count ?st > ERROR_LIMIT" by simp
  then show ?case
    using Cons.IH[OF e] by (simp add: Let_def)
qed



lemma steps_snoc:
  "steps v labels n (xs @ [x]) st =
     transform_line v labels (n + length xs) x (steps v labels n xs st)"
  by (simp add: steps_append)

lemma steps_all_succeed:
  assumes "\<forall>x \<in> set xs. \<not> fails v labels x"
  shows "error_count (steps v labels n xs st) = error_count st \<and>
         printed (steps v labels n xs st) = printed st \<and>
         length (transformed (steps v labels n xs st)) = length (transformed st) + length xs \<and>
         take (length (transformed st)) (transformed (steps v labels n xs st)) = transformed st \<and>
         (\<forall>i < length xs.
            transform_body v labels
              (address st + int (length (filter (takes_address v) (take i xs))))
              (rstrip (xs ! i)) =
            Inr (transformed (steps v labels n xs st) ! (length (transformed st) + i),
                 address st + int (length (filter (takes_address v) (take (Suc i) xs)))))"
  using assms
proof (induction xs rule: rev_induct)
  case Nil
  then show ?case by simp
next
  case (snoc x xs)
  let ?s = "steps v labels n xs st"
  have ih: "error_count ?s = error_count st" "printed ?s = printed st"
    "length (transformed ?s) = length (transformed st) + length xs"
    "take (length (transformed st)) (transformed ?s) = transformed st"
    "\<forall>i < length xs.
            transform_body v labels
              (address st + int (length (filter (takes_address v) (take i xs))))
              (rstrip (xs ! i)) =
            Inr (transformed ?s ! (length (transformed st) + i),
                 address st + int (length (filter (takes_address v) (take (Suc i) xs))))"
    using snoc by simp_all
  have ok: "failure v labels x = None"
    using snoc.prems by (simp add: fails_def)
  have nf: "filter (\<lambda>x. takes_address v x \<and> \<not> fails v labels x) xs = filter (takes_address v) xs"
    using snoc.prems by (auto intro: filter_cong)
  have addr: "address ?s = address st + int (length (filter (takes_address v) xs))"
    by (simp add: steps_address nf)
  from transform_line_success[OF ok, of ?s "n + length xs"] obtain tx where
    t: "transform_body v labels (address ?s) (rstrip x) =
           Inr (tx, if takes_address v x then address ?s + 1 else address ?s)"
       "transform_line v labels (n + length xs) x ?s =
           ?s\<lparr>address := (if takes_address v x then address ?s + 1 else address ?s),
              transformed := transformed ?s @ [tx]\<rparr>"
    by blast
  have s: "steps v labels n (xs @ [x]) st =
           ?s\<lparr>address := (if takes_address v x then address ?s + 1 else address ?s),
              transformed := transformed ?s @ [tx]\<rparr>"
    using t(2) by (simp add: steps_snoc)
  have last: "transform_body v labels
              (address st + int (length (filter (takes_address v) (take (length xs) (xs @ [x])))))
              (rstrip ((xs @ [x]) ! length xs)) =
            Inr (transformed (steps v labels n (xs @ [x]) st) ! (length (transformed st) + length xs),
                 address st + int (length (filter (takes_address v) (take (Suc (length xs)) (xs @ [x])))))"
    using t(1) addr ih(3) by (simp add: s nth_append)
  have earlier: "transform_body v labels
              (address st + int (length (filter (takes_address v) (take i (xs @ [x])))))
              (rstrip ((xs @ [x]) ! i)) =
            Inr (transformed (steps v labels n (xs @ [x]) st) ! (length (transformed st) + i),
                 address st + int (length (filter (takes_address v) (take (Suc i) (xs @ [x])))))"
    if "i < length xs" for i
    using that ih(5) ih(3) by (simp add: s nth_append)
  have all: "\<forall>i < length (xs @ [x]).
            transform_body v labels
              (address st + int (length (filter (takes_address v) (take i (xs @ [x])))))
              (rstrip ((xs @ [x]) ! i)) =
            Inr (transformed (steps v labels n (xs @ [x]) st) ! (length (transformed st) + i),
                 address st + int (length (filter (takes_address v) (take (Suc i) (xs @ [x])))))"
  proof (intro allI impI)
    fix i assume "i < length (xs @ [x])"
    then consider "i < length xs" | "i = length xs" by fastforce
    then show "transform_body v labels
              (address st + int (length (filter (takes_address v) (take i (xs @ [x])))))
              (rstrip ((xs @ [x]) ! i)) =
            Inr (transformed (steps v labels n (xs @ [x]) st) ! (length (transformed st) + i),
                 address st + int (length (filter (takes_address v) (take (Suc i) (xs @ [x])))))"
      using earlier last by cases simp_all
  qed
  show ?case
    using ih(1-4) all by (simp add: s)
qed

lemma steps_address_synchronised:
  assumes "\<forall>x \<in> set (take i lines). \<not> fails v labels x"
  shows "address (steps v labels n (take i lines) initial) = line_address v lines i"
proof -
  have "filter (\<lambda>x. takes_address v x \<and> \<not> fails v labels x) (take i lines) =
        filter (takes_address v) (take i lines)"
    using assms by (auto intro: filter_cong)
  then show ?thesis
    by (simp add: steps_address line_address_def initial_def)
qed




lemma failure_unknown_label:
  assumes "parse_line v (rstrip raw) = Inr f" "kind f = MEMOP \<or> kind f = JUMP"
    "groupdict f ''labelref'' = Some ref"
  shows "fails v labels raw \<longleftrightarrow> labels ref = None"
  using assms by (auto simp: fails_def failure_def pc_relative_def split: option.splits)

lemma rstrip_decompose: "\<exists>w. s = rstrip s @ w \<and> list_all is_space w"
proof -
  have "rev s = takeWhile is_space (rev s) @ dropWhile is_space (rev s)"
    by simp
  then have "s = rev (dropWhile is_space (rev s)) @ rev (takeWhile is_space (rev s))"
    by (metis rev_append rev_rev_ident)
  moreover have "list_all is_space (rev (takeWhile is_space (rev s)))"
    by (simp add: list_all_iff) (meson set_takeWhileD)
  ultimately show ?thesis
    unfolding rstrip_def by blast
qed

lemma emit_phase1_passes:
  "kind f = FULL \<or> kind f = DATA \<Longrightarrow> emit assembler_phase1 labels a line f = Inr line"
  by (auto simp: emit_def emit_phase1_def)

lemma emit_fadfa_FULL:
  assumes "parse_line fadfa line = Inr f" "kind f = FULL"
  shows "\<exists>opc tgt s1 s2.
     groupdict f ''opcode'' = Some opc \<and> groupdict f ''target'' = Some tgt \<and>
     groupdict f ''src1'' = Some s1 \<and> groupdict f ''src2'' = Some s2 \<and>
     emit fadfa labels a line f =
       Inr (label_column (groupdict f) @ ''   '' @ upper opc @ predicate_suffix (groupdict f) @
            ''  '' @ tgt @ '','' @ s1 @ '','' @ s2 @
            (case groupdict f ''offset'' of None \<Rightarrow> '' '' | Some off \<Rightarrow> ''['' @ off @ ''] '') @
            '' '' @ comment_suffix (groupdict f))"
proof -
  have m: "fullmatch ASM_FULL_PAT line = Some (groupdict f)"
    using parse_line_kindD(1)[OF assms] .
  obtain opc tgt s1 s2 where g: "groupdict f ''opcode'' = Some opc"
    "groupdict f ''target'' = Some tgt" "groupdict f ''src1'' = Some s1"
    "groupdict f ''src2'' = Some s2"
    using fullmatch_mandatory[OF m mandatory_groups(1)] fullmatch_mandatory[OF m mandatory_groups(2)]
      fullmatch_mandatory[OF m mandatory_groups(3)] fullmatch_mandatory[OF m mandatory_groups(4)]
    by auto
  have "emit fadfa labels a line f =
       Inr (label_column (groupdict f) @ ''   '' @ upper opc @ predicate_suffix (groupdict f) @
            ''  '' @ tgt @ '','' @ s1 @ '','' @ s2 @
            (case groupdict f ''offset'' of None \<Rightarrow> '' '' | Some off \<Rightarrow> ''['' @ off @ ''] '') @
            '' '' @ comment_suffix (groupdict f))"
    using assms(2) g
    by (simp add: emit_def emit_fadfa_def upper_opcode_def fix_optional_fields_def fmt_def
        label_column_def predicate_suffix_def comment_suffix_def Let_def split: option.splits)
  then show ?thesis
    using g by blast
qed

lemma emit_fadfa_DATA:
  assumes "parse_line fadfa line = Inr f" "kind f = DATA" "groupdict f ''value'' = Some val"
  shows "\<exists>opc. groupdict f ''opcode'' = Some opc \<and>
     emit fadfa labels a line f =
       Inr (label_column (groupdict f) @ ''   '' @ upper opc @ ''  '' @ val @ ''  '' @
            comment_suffix (groupdict f))"
proof -
  obtain opc where g: "groupdict f ''opcode'' = Some opc"
    using parsed_opcode[OF assms(1)] assms(2) by auto
  have "emit fadfa labels a line f =
       Inr (label_column (groupdict f) @ ''   '' @ upper opc @ ''  '' @ val @ ''  '' @
            comment_suffix (groupdict f))"
    using assms(2,3) g
    by (simp add: emit_def emit_fadfa_def upper_opcode_def fix_optional_fields_def fmt_def
        label_column_def predicate_suffix_def comment_suffix_def Let_def split: option.splits)
  then show ?thesis
    using g by blast
qed

section \<open>The claims\<close>



text \<open>
  Claim C2, as amended. A line classified as JUMP whose label is in the symbol table is
  rewritten to an \<^verbatim>\<open>ADD\<close> with the predicate of the line, target \<^verbatim>\<open>r15\<close>, first source
  \<^verbatim>\<open>r0\<close> and second source \<^verbatim>\<open>r15\<close> with the PC-relative displacement; so the line that
  the pass puts out for a JUMP line does not have the opcode \<^verbatim>\<open>JUMP\<close>. This holds for
  both files.
\<close>

theorem jump_rewritten_to_add:
  assumes "parse_line v (rstrip raw) = Inr f"
    and "kind f = JUMP"
    and "groupdict f ''labelref'' = Some ref"
    and "labels ref = Some a"
  shows "transform_line v labels lnum raw st =
       st\<lparr>address := address st + 1,
          transformed := transformed st @
            [label_column (groupdict f) @ ''   ADD'' @ predicate_suffix (groupdict f) @
             ''  r15,r0,r15['' @ str_int (a - address st) @ ''] #'' @ ref @ ''  '' @
             comment_suffix (groupdict f)]\<rparr>"
proof -
  obtain opc where opc: "groupdict f ''opcode'' = Some opc"
    using parsed_opcode[OF assms(1)] assms(2) by auto
  have "emit v labels (address st) (rstrip raw) f =
       Inr (output_line (label_column (groupdict f)) ''ADD''
             (predicate_suffix (groupdict f)) ''r15'' (a - address st) ref
             (comment_suffix (groupdict f)))"
    using emit_JUMP[of f ref labels a opc v "address st" "rstrip raw"] assms(2,3,4) opc
    by simp
  then show ?thesis
    using assms(1,2) by (simp add: transform_line_def transform_body_def output_line_def)
qed

theorem jump_rewritten_to_add_witness:
  "transform_line fadfa [''again'' \<mapsto> 0] 7 ''back: jump/NZ again ; loop  ''
     \<lparr>error_count = 0, address = 12, transformed = [], printed = []\<rparr> =
     \<lparr>error_count = 0, address = 13,
      transformed = [''back:   ADD/NZ  r15,r0,r15[-12] #again  ; loop''], printed = []\<rparr>"
proof -
  have p: "case parse_line fadfa (rstrip ''back: jump/NZ again ; loop  '') of
      Inl e \<Rightarrow> False
    | Inr f \<Rightarrow> kind f = JUMP \<and> groupdict f ''labelref'' = Some ''again'' \<and>
      groupdict f ''label'' = Some ''back'' \<and>
      groupdict f ''predicate'' = Some ''NZ'' \<and>
      groupdict f ''comment'' = Some ''; loop''"
    by code_simp
  then obtain f where f: "parse_line fadfa (rstrip ''back: jump/NZ again ; loop  '') = Inr f"
      "kind f = JUMP" "groupdict f ''labelref'' = Some ''again''"
      "groupdict f ''label'' = Some ''back''"
      "groupdict f ''predicate'' = Some ''NZ''"
      "groupdict f ''comment'' = Some ''; loop''"
    by (cases "parse_line fadfa (rstrip ''back: jump/NZ again ; loop  '')") simp_all
  have a: "[''again'' \<mapsto> 0::int] ''again'' = Some 0"
    by simp
  show ?thesis
    using jump_rewritten_to_add[where labels="[''again'' \<mapsto> 0::int]" and lnum=7
        and st="\<lparr>error_count = 0, address = 12, transformed = [], printed = []\<rparr>",
        OF f(1) f(2) f(3) a] f(4,5,6)
    by (simp add: render_defs)
qed

text \<open>
  The claim as it was stated also says that no line of the output has the opcode
  \<^verbatim>\<open>JUMP\<close>. A line with that opcode and three registers is a FULL line, and one with a
  register and a label is a MEMOP line (MEMOP is tried before JUMP); both keep their
  opcode in the output.
\<close>

theorem jump_opcode_in_output_counterexample:
  "(case transform assembler_phase1 [''JUMP r1,r2,r3'', ''x: JUMP r1,x''] of
      Inl e \<Rightarrow> False
    | Inr (st, c) \<Rightarrow> c = Returned \<and> error_count st = 0 \<and>
        transformed st = [''JUMP r1,r2,r3'', ''x:   JUMP  r1,r0,r15[0] #x  '']) \<and>
   (case parse_line assembler_phase1 ''JUMP r1,r2,r3'' of
      Inl e \<Rightarrow> False
    | Inr f \<Rightarrow> kind f = FULL \<and> groupdict f ''opcode'' = Some ''JUMP'') \<and>
   (case parse_line assembler_phase1 ''x: JUMP r1,x'' of
      Inl e \<Rightarrow> False
    | Inr f \<Rightarrow> kind f = MEMOP \<and> groupdict f ''opcode'' = Some ''JUMP'')"
  by code_simp

text \<open>
  Claim C4. \<^verbatim>\<open>resolve\<close> returns a table for every input, it never raises. Its address
  counter starts at 0 and is advanced by one by every line that parses and is not a
  COMMENT, and by no other line. A label is in the table exactly when some line that
  parses defines it, and it is bound to the value of the counter on reaching the last
  line that defines it: the number of address-taking lines before that line. So the
  label of a COMMENT line that is followed by lines taking no address is bound to the
  address of the first line after these (the address of the end of the file if there
  is none). This holds for both files.
\<close>

theorem resolve_symbol_table:
  "\<exists>labels.
     resolve v lines = Inr labels \<and>
     resolve_loop v lines (Map.empty, 0) =
       Inr (labels, int (length (filter (takes_address v) lines))) \<and>
     (\<forall>l. labels l = None \<longleftrightarrow> Some l \<notin> set (map (label_of v) lines)) \<and>
     (\<forall>xs x ys l.
        lines = xs @ x # ys \<and> label_of v x = Some l \<and>
        Some l \<notin> set (map (label_of v) ys) \<longrightarrow>
        labels l = Some (int (length (filter (takes_address v) xs)))) \<and>
     (\<forall>xs c ys zs l.
        lines = xs @ c # ys @ zs \<and> label_of v c = Some l \<and>
        Some l \<notin> set (map (label_of v) (ys @ zs)) \<and>
        \<not> takes_address v c \<and> list_all (\<lambda>y. \<not> takes_address v y) ys \<longrightarrow>
        labels l = Some (int (length (filter (takes_address v) (xs @ c # ys)))))"
proof -
  have 1: "resolve v lines = Inr (table_of v lines)"
    by (rule resolve_table)
  have 2: "resolve_loop v lines (Map.empty, 0) =
       Inr (table_of v lines, int (length (filter (takes_address v) lines)))"
    by (simp add: resolve_loop_table line_address_def)
  have 3: "\<forall>l. table_of v lines l = None \<longleftrightarrow> Some l \<notin> set (map (label_of v) lines)"
    using table_of_undefined by blast
  have 4: "\<forall>xs x ys l.
        lines = xs @ x # ys \<and> label_of v x = Some l \<and>
        Some l \<notin> set (map (label_of v) ys) \<longrightarrow>
        table_of v lines l = Some (int (length (filter (takes_address v) xs)))"
    using table_of_last_definition by blast
  have 5: "\<forall>xs c ys zs l.
        lines = xs @ c # ys @ zs \<and> label_of v c = Some l \<and>
        Some l \<notin> set (map (label_of v) (ys @ zs)) \<and>
        \<not> takes_address v c \<and> list_all (\<lambda>y. \<not> takes_address v y) ys \<longrightarrow>
        table_of v lines l = Some (int (length (filter (takes_address v) (xs @ c # ys))))"
  proof (intro allI impI)
    fix xs c ys zs l
    assume h: "lines = xs @ c # ys @ zs \<and> label_of v c = Some l \<and>
        Some l \<notin> set (map (label_of v) (ys @ zs)) \<and>
        \<not> takes_address v c \<and> list_all (\<lambda>y. \<not> takes_address v y) ys"
    then have "filter (takes_address v) ys = []"
      by (auto simp: list_all_iff filter_empty_conv)
    then have "filter (takes_address v) (xs @ c # ys) = filter (takes_address v) xs"
      using h by simp
    moreover have "table_of v lines l = Some (int (length (filter (takes_address v) xs)))"
      using h table_of_last_definition[of v c l "ys @ zs" xs] by simp
    ultimately show "table_of v lines l =
        Some (int (length (filter (takes_address v) (xs @ c # ys))))"
      by simp
  qed
  show ?thesis
    using 1 2 3 4 5 by blast
qed

theorem resolve_symbol_table_witness:
  "\<exists>labels.
     resolve assembler_phase1
       [''x: ADD r1,r2,r3'', ''x: DATA 5  '', ''this is not assembly'', ''y:'', ''  # c'',
        ''SUB r1,r2,r3'', ''z:''] = Inr labels \<and>
     labels ''x'' = Some 1 \<and> labels ''y'' = Some 2 \<and> labels ''z'' = Some 3 \<and>
     labels ''w'' = None"
proof -
  let ?v = assembler_phase1
  let ?l0 = "''x: ADD r1,r2,r3''" and ?l1 = "''x: DATA 5  ''" and ?l2 = "''this is not assembly''"
  let ?l3 = "''y:''" and ?l4 = "''  # c''" and ?l5 = "''SUB r1,r2,r3''" and ?l6 = "''z:''"
  let ?L = "[?l0, ?l1, ?l2, ?l3, ?l4, ?l5, ?l6]"
  from resolve_symbol_table[of ?v ?L] obtain labels where
    r: "resolve ?v ?L = Inr labels"
    and undef: "\<forall>l. labels l = None \<longleftrightarrow> Some l \<notin> set (map (label_of ?v) ?L)"
    and lastdef: "\<forall>xs x ys l.
        ?L = xs @ x # ys \<and> label_of ?v x = Some l \<and>
        Some l \<notin> set (map (label_of ?v) ys) \<longrightarrow>
        labels l = Some (int (length (filter (takes_address ?v) xs)))"
    and comm: "\<forall>xs c ys zs l.
        ?L = xs @ c # ys @ zs \<and> label_of ?v c = Some l \<and>
        Some l \<notin> set (map (label_of ?v) (ys @ zs)) \<and>
        \<not> takes_address ?v c \<and> list_all (\<lambda>y. \<not> takes_address ?v y) ys \<longrightarrow>
        labels l = Some (int (length (filter (takes_address ?v) (xs @ c # ys))))"
    by blast
  have x: "label_of ?v ?l1 = Some ''x'' \<and>
           Some ''x'' \<notin> set (map (label_of ?v) [?l2, ?l3, ?l4, ?l5, ?l6]) \<and>
           int (length (filter (takes_address ?v) [?l0])) = 1"
    by code_simp
  have "labels ''x'' = Some (int (length (filter (takes_address ?v) [?l0])))"
    using lastdef[rule_format, of "[?l0]" ?l1 "[?l2, ?l3, ?l4, ?l5, ?l6]" "''x''"] x by simp
  then have lx: "labels ''x'' = Some 1"
    using x by simp
  have y: "label_of ?v ?l3 = Some ''y'' \<and>
           Some ''y'' \<notin> set (map (label_of ?v) ([?l4] @ [?l5, ?l6])) \<and>
           \<not> takes_address ?v ?l3 \<and> list_all (\<lambda>y. \<not> takes_address ?v y) [?l4] \<and>
           int (length (filter (takes_address ?v) ([?l0, ?l1, ?l2] @ ?l3 # [?l4]))) = 2"
    by code_simp
  have "labels ''y'' =
          Some (int (length (filter (takes_address ?v) ([?l0, ?l1, ?l2] @ ?l3 # [?l4]))))"
    using comm[rule_format, of "[?l0, ?l1, ?l2]" ?l3 "[?l4]" "[?l5, ?l6]" "''y''"] y by simp
  then have ly: "labels ''y'' = Some 2"
    using y by simp
  have z: "label_of ?v ?l6 = Some ''z'' \<and>
           \<not> takes_address ?v ?l6 \<and>
           int (length (filter (takes_address ?v) ([?l0, ?l1, ?l2, ?l3, ?l4, ?l5] @ ?l6 # []))) = 3"
    by code_simp
  have "labels ''z'' =
          Some (int (length (filter (takes_address ?v) ([?l0, ?l1, ?l2, ?l3, ?l4, ?l5] @ ?l6 # []))))"
    using comm[rule_format, of "[?l0, ?l1, ?l2, ?l3, ?l4, ?l5]" ?l6 "[]" "[]" "''z''"] z by simp
  then have lz: "labels ''z'' = Some 3"
    using z by simp
  have w: "Some ''w'' \<notin> set (map (label_of ?v) ?L)"
    by code_simp
  then have lw: "labels ''w'' = None"
    using undef by blast
  show ?thesis
    using r lx ly lz lw by blast
qed




text \<open>
  Claim C6. The rewrite pass advances its address counter at the end of the \<^verbatim>\<open>try\<close>
  block, after the line has been rewritten, so a MEMOP or JUMP line whose label is not
  in the table raises \<^verbatim>\<open>KeyError\<close> before the counter is advanced; the symbol-table
  pass does count that line. From that line on the two counters differ. Here the first
  line refers to an unknown label: the symbol-table pass puts \<^verbatim>\<open>x\<close> at address 1 and the
  third line at address 2, the rewrite pass reaches the third line with its counter at
  1 and emits the displacement 0 instead of -1. As long as no line before a position
  has failed in this way, the two counters agree there (lemma
  \<open>steps_address_synchronised\<close>).
\<close>

theorem address_counter_skips_failed_line:
  "(case resolve assembler_phase1 [''LOAD r1,nosuch'', ''x: DATA 1'', ''y: LOAD r1,x''] of
      Inl e \<Rightarrow> False
    | Inr labels \<Rightarrow>
        labels ''x'' = Some 1 \<and> labels ''y'' = Some 2 \<and>
        address (steps assembler_phase1 labels 0
                   (take 2 [''LOAD r1,nosuch'', ''x: DATA 1'', ''y: LOAD r1,x'']) initial) = 1) \<and>
   line_address assembler_phase1 [''LOAD r1,nosuch'', ''x: DATA 1'', ''y: LOAD r1,x''] 2 = 2 \<and>
   (case transform assembler_phase1 [''LOAD r1,nosuch'', ''x: DATA 1'', ''y: LOAD r1,x''] of
      Inl e \<Rightarrow> False
    | Inr (st, c) \<Rightarrow>
        c = Returned \<and> error_count st = 1 \<and>
        transformed st = [''x: DATA 1'', ''y:   LOAD  r1,r0,r15[0] #x  '']) \<and>
   (case transform fadfa [''LOAD r1,nosuch'', ''x: DATA 1'', ''y: LOAD r1,x''] of
      Inl e \<Rightarrow> False
    | Inr (st, c) \<Rightarrow>
        c = Returned \<and> error_count st = 1 \<and>
        transformed st = [''x:   DATA  1  '', ''y:   LOAD  r1,r0,r15[0] #x  ''])"
  by code_simp

text \<open>
  Claim C7, as amended. Labels are matched with their letter case: a MEMOP or JUMP line
  resolves exactly when the table binds the label as it is spelled on the line. The
  opcode of a line that parses is a non-empty run of ASCII letters of either case,
  except that the keyword of a DATA or JUMP line is \<^verbatim>\<open>DATA\<close> or \<^verbatim>\<open>JUMP\<close> in upper case
  (\<^verbatim>\<open>fadfa.py\<close> also takes \<^verbatim>\<open>data\<close> and \<^verbatim>\<open>jump\<close>); a predicate is a non-empty run of
  upper-case letters, so the predicate of a rewritten line is in upper case. The
  rewritten MEMOP line has the opcode as it was written in \<^verbatim>\<open>assembler_phase1.py\<close> and
  in upper case in \<^verbatim>\<open>fadfa.py\<close>.
\<close>

theorem letter_case_of_labels_opcodes_predicates:
  assumes "parse_line v (rstrip raw) = Inr f"
  shows "(\<forall>p. groupdict f ''predicate'' = Some p \<longrightarrow> p \<noteq> [] \<and> list_all is_upper p) \<and>
    (\<forall>opc. groupdict f ''opcode'' = Some opc \<longrightarrow>
       opc \<noteq> [] \<and> list_all is_alpha opc \<and> list_all is_upper (upper opc) \<and>
       (kind f = DATA \<longrightarrow> opc = ''DATA'' \<or> v = fadfa \<and> opc = ''data'') \<and>
       (kind f = JUMP \<longrightarrow> opc = ''JUMP'' \<or> v = fadfa \<and> opc = ''jump'')) \<and>
    (\<forall>ref (labels::symtab). (kind f = MEMOP \<or> kind f = JUMP) \<and> groupdict f ''labelref'' = Some ref \<longrightarrow>
       (fails v labels raw \<longleftrightarrow> labels ref = None)) \<and>
    (\<forall>ref (labels::symtab) a lnum (st::tstate).
       kind f = MEMOP \<and> groupdict f ''labelref'' = Some ref \<and> labels ref = Some a \<longrightarrow>
       (\<exists>opc tgt. groupdict f ''opcode'' = Some opc \<and> groupdict f ''target'' = Some tgt \<and>
          transformed (transform_line v labels lnum raw st) =
            transformed st @
              [output_line (label_column (groupdict f))
                 (case v of assembler_phase1 \<Rightarrow> opc | fadfa \<Rightarrow> upper opc)
                 (predicate_suffix (groupdict f)) tgt (a - address st) ref
                 (comment_suffix (groupdict f))]))"
proof -
  have 1: "\<forall>p. groupdict f ''predicate'' = Some p \<longrightarrow> p \<noteq> [] \<and> list_all is_upper p"
    using parsed_predicate_upper[OF assms] by blast
  have 2: "\<forall>opc. groupdict f ''opcode'' = Some opc \<longrightarrow>
       opc \<noteq> [] \<and> list_all is_alpha opc \<and> list_all is_upper (upper opc) \<and>
       (kind f = DATA \<longrightarrow> opc = ''DATA'' \<or> v = fadfa \<and> opc = ''data'') \<and>
       (kind f = JUMP \<longrightarrow> opc = ''JUMP'' \<or> v = fadfa \<and> opc = ''jump'')"
    using parsed_opcode_letters[OF assms] parsed_keyword[OF assms] upper_letters by blast
  have 3: "\<forall>ref (labels::symtab). (kind f = MEMOP \<or> kind f = JUMP) \<and> groupdict f ''labelref'' = Some ref \<longrightarrow>
       (fails v labels raw \<longleftrightarrow> labels ref = None)"
    using failure_unknown_label[OF assms] by blast
  have 4: "\<forall>ref (labels::symtab) a lnum (st::tstate).
       kind f = MEMOP \<and> groupdict f ''labelref'' = Some ref \<and> labels ref = Some a \<longrightarrow>
       (\<exists>opc tgt. groupdict f ''opcode'' = Some opc \<and> groupdict f ''target'' = Some tgt \<and>
          transformed (transform_line v labels lnum raw st) =
            transformed st @
              [output_line (label_column (groupdict f))
                 (case v of assembler_phase1 \<Rightarrow> opc | fadfa \<Rightarrow> upper opc)
                 (predicate_suffix (groupdict f)) tgt (a - address st) ref
                 (comment_suffix (groupdict f))])"
  proof (intro allI impI)
    fix ref and labels :: symtab and a lnum and st :: tstate
    assume h: "kind f = MEMOP \<and> groupdict f ''labelref'' = Some ref \<and> labels ref = Some a"
    obtain opc where opc: "groupdict f ''opcode'' = Some opc"
      using parsed_opcode[OF assms] h by auto
    obtain tgt where tgt: "groupdict f ''target'' = Some tgt"
      using parsed_target[OF assms] h by auto
    have "emit v labels (address st) (rstrip raw) f =
       Inr (output_line (label_column (groupdict f)) (printed_opcode v opc)
             (predicate_suffix (groupdict f)) tgt (a - address st) ref
             (comment_suffix (groupdict f)))"
      using emit_MEMOP[of f ref labels a opc tgt v "address st" "rstrip raw"] h opc tgt by simp
    then have "transformed (transform_line v labels lnum raw st) =
            transformed st @
              [output_line (label_column (groupdict f))
                 (case v of assembler_phase1 \<Rightarrow> opc | fadfa \<Rightarrow> upper opc)
                 (predicate_suffix (groupdict f)) tgt (a - address st) ref
                 (comment_suffix (groupdict f))]"
      using assms h by (simp add: transform_line_def transform_body_def printed_opcode_def)
    then show "\<exists>opc tgt. groupdict f ''opcode'' = Some opc \<and> groupdict f ''target'' = Some tgt \<and>
          transformed (transform_line v labels lnum raw st) =
            transformed st @
              [output_line (label_column (groupdict f))
                 (case v of assembler_phase1 \<Rightarrow> opc | fadfa \<Rightarrow> upper opc)
                 (predicate_suffix (groupdict f)) tgt (a - address st) ref
                 (comment_suffix (groupdict f))]"
      using opc tgt by blast
  qed
  show ?thesis
    using 1 2 3 4 by blast
qed

theorem letter_case_of_labels_opcodes_predicates_witness:
  "fails fadfa [''foo'' \<mapsto> 3] ''x: LoAd/ZP r1,Foo  '' \<and>
   \<not> fails fadfa [''Foo'' \<mapsto> 3] ''x: LoAd/ZP r1,Foo  '' \<and>
   transformed (transform_line fadfa [''Foo'' \<mapsto> 3] 0 ''x: LoAd/ZP r1,Foo  '' initial) =
     [''x:   LOAD/ZP  r1,r0,r15[3] #Foo  ''] \<and>
   transformed (transform_line assembler_phase1 [''Foo'' \<mapsto> 3] 0 ''x: LoAd/ZP r1,Foo  '' initial) =
     [''x:   LoAd/ZP  r1,r0,r15[3] #Foo  ''] \<and>
   list_all is_upper ''ZP'' \<and> list_all is_alpha ''LoAd'' \<and> list_all is_upper (upper ''LoAd'')"
proof -
  let ?raw = "''x: LoAd/ZP r1,Foo  ''"
  have p: "case parse_line fadfa (rstrip ?raw) of
      Inl e \<Rightarrow> False
    | Inr f \<Rightarrow> kind f = MEMOP \<and> groupdict f ''labelref'' = Some ''Foo'' \<and>
        groupdict f ''label'' = Some ''x'' \<and> groupdict f ''opcode'' = Some ''LoAd'' \<and>
        groupdict f ''predicate'' = Some ''ZP'' \<and> groupdict f ''target'' = Some ''r1'' \<and>
        groupdict f ''comment'' = None"
    by code_simp
  have q: "case parse_line assembler_phase1 (rstrip ?raw) of
      Inl e \<Rightarrow> False
    | Inr f \<Rightarrow> kind f = MEMOP \<and> groupdict f ''labelref'' = Some ''Foo'' \<and>
        groupdict f ''label'' = Some ''x'' \<and> groupdict f ''opcode'' = Some ''LoAd'' \<and>
        groupdict f ''predicate'' = Some ''ZP'' \<and> groupdict f ''target'' = Some ''r1'' \<and>
        groupdict f ''comment'' = None"
    by code_simp
  from p obtain f where f: "parse_line fadfa (rstrip ?raw) = Inr f"
      "kind f = MEMOP" "groupdict f ''labelref'' = Some ''Foo''"
      "groupdict f ''label'' = Some ''x''" "groupdict f ''opcode'' = Some ''LoAd''"
      "groupdict f ''predicate'' = Some ''ZP''" "groupdict f ''target'' = Some ''r1''"
      "groupdict f ''comment'' = None"
    by (cases "parse_line fadfa (rstrip ?raw)") simp_all
  from q obtain g where g: "parse_line assembler_phase1 (rstrip ?raw) = Inr g"
      "kind g = MEMOP" "groupdict g ''labelref'' = Some ''Foo''"
      "groupdict g ''label'' = Some ''x''" "groupdict g ''opcode'' = Some ''LoAd''"
      "groupdict g ''predicate'' = Some ''ZP''" "groupdict g ''target'' = Some ''r1''"
      "groupdict g ''comment'' = None"
    by (cases "parse_line assembler_phase1 (rstrip ?raw)") simp_all
  note tf = letter_case_of_labels_opcodes_predicates[OF f(1)]
  note tg = letter_case_of_labels_opcodes_predicates[OF g(1)]
  have 1: "fails fadfa [''foo'' \<mapsto> 3] ?raw"
    using tf f(2,3) by simp
  have 2: "\<not> fails fadfa [''Foo'' \<mapsto> 3] ?raw"
    using tf f(2,3) by simp
  have a: "[''Foo'' \<mapsto> 3::int] ''Foo'' = Some 3"
    by simp
  have 3: "transformed (transform_line fadfa [''Foo'' \<mapsto> 3] 0 ?raw initial) =
     transformed initial @
       [output_line (label_column (groupdict f)) (upper ''LoAd'')
          (predicate_suffix (groupdict f)) ''r1'' (3 - address initial) ''Foo''
          (comment_suffix (groupdict f))]"
    using tf f(2,3,5,7) a by fastforce
  have 4: "transformed (transform_line assembler_phase1 [''Foo'' \<mapsto> 3] 0 ?raw initial) =
     transformed initial @
       [output_line (label_column (groupdict g)) ''LoAd''
          (predicate_suffix (groupdict g)) ''r1'' (3 - address initial) ''Foo''
          (comment_suffix (groupdict g))]"
    using tg g(2,3,5,7) a by fastforce
  have 5: "list_all is_upper ''ZP'' \<and> list_all is_alpha ''LoAd'' \<and> list_all is_upper (upper ''LoAd'')"
    using tf f(5,6) by blast
  have 6: "upper ''LoAd'' = ''LOAD''"
    by code_simp
  show ?thesis
    using 1 2 3 4 5 6 f(4,6,8) g(4,6,8)
    by (simp add: initial_def render_defs)
qed

text \<open>
  The claim as it was stated says that the predicate is accepted in either case and that
  the opcode of the output is in upper case. \<^verbatim>\<open>assembler_phase1.py\<close> rewrites a \<^verbatim>\<open>load\<close>
  to a \<^verbatim>\<open>load\<close>; no grammar of either file accepts a predicate in lower case; and the
  keywords are not accepted in every case.
\<close>

theorem letter_case_counterexample:
  "(case transform assembler_phase1 [''x: load r1,x''] of
      Inl e \<Rightarrow> False
    | Inr (st, c) \<Rightarrow> c = Returned \<and> error_count st = 0 \<and>
        transformed st = [''x:   load  r1,r0,r15[0] #x  '']) \<and>
   (case parse_line assembler_phase1 ''ADD/z r1,r2,r3'' of
      Inl e \<Rightarrow> e = SyntaxError ''Assembler syntax error in ADD/z r1,r2,r3'' | Inr f \<Rightarrow> False) \<and>
   (case parse_line fadfa ''ADD/z r1,r2,r3'' of
      Inl e \<Rightarrow> e = SyntaxError ''Assembler syntax error in ADD/z r1,r2,r3'' | Inr f \<Rightarrow> False) \<and>
   (case parse_line assembler_phase1 ''jump x'' of
      Inl e \<Rightarrow> e = SyntaxError ''Assembler syntax error in jump x'' | Inr f \<Rightarrow> False) \<and>
   (case parse_line assembler_phase1 ''data 5'' of
      Inl e \<Rightarrow> e = SyntaxError ''Assembler syntax error in data 5'' | Inr f \<Rightarrow> False) \<and>
   (case parse_line fadfa ''Jump x'' of
      Inl e \<Rightarrow> e = SyntaxError ''Assembler syntax error in Jump x'' | Inr f \<Rightarrow> False)"
  by code_simp

text \<open>
  Claim C8, as amended. On an input whose lines are all FULL or DATA lines the rewrite
  pass returns one line for each input line and no diagnostic, and rewrites no
  displacement. \<^verbatim>\<open>assembler_phase1.py\<close> gives each line back without its trailing
  white space and otherwise unchanged. \<^verbatim>\<open>fadfa.py\<close> renders each line again from the
  groups that the grammar captured on it: a FULL line as the label column, the opcode
  in upper case, the predicate, the three registers, the offset if there is one, and
  the comment; a DATA line that has a value as the label column, the keyword in upper
  case, the value and the comment.
\<close>

theorem full_and_data_lines_pass_through:
  assumes "\<forall>raw \<in> set lines. \<exists>f. parse_line v (rstrip raw) = Inr f \<and> (kind f = FULL \<or> kind f = DATA)"
  shows "\<exists>st. transform v lines = Inr (st, Returned) \<and>
     error_count st = 0 \<and> printed st = [] \<and> length (transformed st) = length lines \<and>
     (v = assembler_phase1 \<longrightarrow>
        transformed st = map rstrip lines \<and>
        (\<forall>i < length lines. \<exists>w. lines ! i = transformed st ! i @ w \<and> list_all is_space w)) \<and>
     (v = fadfa \<longrightarrow>
        (\<forall>i < length lines. \<forall>f. parse_line v (rstrip (lines ! i)) = Inr f \<longrightarrow>
           (kind f = FULL \<longrightarrow>
              (\<exists>opc tgt s1 s2.
                 groupdict f ''opcode'' = Some opc \<and> groupdict f ''target'' = Some tgt \<and>
                 groupdict f ''src1'' = Some s1 \<and> groupdict f ''src2'' = Some s2 \<and>
                 transformed st ! i =
                   label_column (groupdict f) @ ''   '' @ upper opc @
                   predicate_suffix (groupdict f) @ ''  '' @ tgt @ '','' @ s1 @ '','' @ s2 @
                   (case groupdict f ''offset'' of
                      None \<Rightarrow> '' '' | Some off \<Rightarrow> ''['' @ off @ ''] '') @
                   '' '' @ comment_suffix (groupdict f))) \<and>
           (kind f = DATA \<longrightarrow>
              (\<forall>val. groupdict f ''value'' = Some val \<longrightarrow>
                 (\<exists>opc. groupdict f ''opcode'' = Some opc \<and>
                    transformed st ! i =
                      label_column (groupdict f) @ ''   '' @ upper opc @ ''  '' @ val @
                      ''  '' @ comment_suffix (groupdict f))))))"
proof -
  let ?labels = "table_of v lines"
  have r: "resolve v lines = Inr ?labels"
    by (rule resolve_table)
  have nf: "\<forall>raw \<in> set lines. \<not> fails v ?labels raw"
    using assms by (auto simp: fails_def failure_def)
  let ?st = "steps v ?labels 0 lines initial"
  have "error_count initial + length (filter (fails v ?labels) lines) \<le> ERROR_LIMIT"
    using nf by (simp add: initial_def filter_False)
  then have loop: "transform_loop v ?labels 0 lines initial = (?st, Returned)"
    by (rule transform_loop_returns)
  have t: "transform v lines = Inr (?st, Returned)"
    using r loop by (simp add: transform_def)
  note all = steps_all_succeed[OF nf, of 0 initial]
  have basic: "error_count ?st = 0" "printed ?st = []" "length (transformed ?st) = length lines"
    using all by (simp_all add: initial_def)
  have body: "\<And>i. i < length lines \<Longrightarrow> \<exists>a a'.
      transform_body v ?labels a (rstrip (lines ! i)) = Inr (transformed ?st ! i, a')"
    using all by (simp add: initial_def) blast
  have em: "\<exists>a. emit v ?labels a (rstrip (lines ! i)) f = Inr (transformed ?st ! i)"
    if "i < length lines" "parse_line v (rstrip (lines ! i)) = Inr f" for i f
  proof -
    from body[OF that(1)] obtain a a' where
      b: "transform_body v ?labels a (rstrip (lines ! i)) = Inr (transformed ?st ! i, a')"
      by blast
    have "emit v ?labels a (rstrip (lines ! i)) f = Inr (transformed ?st ! i)"
      using b that(2)
      by (cases "emit v ?labels a (rstrip (lines ! i)) f") (simp_all add: transform_body_def)
    then show ?thesis
      by blast
  qed
  have p1: "transformed ?st = map rstrip lines \<and>
        (\<forall>i < length lines. \<exists>w. lines ! i = transformed ?st ! i @ w \<and> list_all is_space w)"
    if v: "v = assembler_phase1"
  proof -
    have nth: "transformed ?st ! i = rstrip (lines ! i)" if i: "i < length lines" for i
    proof -
      obtain f where f: "parse_line v (rstrip (lines ! i)) = Inr f" "kind f = FULL \<or> kind f = DATA"
        using assms i by (meson nth_mem)
      from em[OF i f(1)] emit_phase1_passes[OF f(2)] show ?thesis
        using v by auto
    qed
    have "transformed ?st = map rstrip lines"
      using basic(3) nth by (simp add: list_eq_iff_nth_eq)
    moreover have "\<forall>i < length lines. \<exists>w. lines ! i = transformed ?st ! i @ w \<and> list_all is_space w"
      using nth rstrip_decompose by simp
    ultimately show ?thesis
      by blast
  qed
  have p2: "\<forall>i < length lines. \<forall>f. parse_line v (rstrip (lines ! i)) = Inr f \<longrightarrow>
           (kind f = FULL \<longrightarrow>
              (\<exists>opc tgt s1 s2.
                 groupdict f ''opcode'' = Some opc \<and> groupdict f ''target'' = Some tgt \<and>
                 groupdict f ''src1'' = Some s1 \<and> groupdict f ''src2'' = Some s2 \<and>
                 transformed ?st ! i =
                   label_column (groupdict f) @ ''   '' @ upper opc @
                   predicate_suffix (groupdict f) @ ''  '' @ tgt @ '','' @ s1 @ '','' @ s2 @
                   (case groupdict f ''offset'' of
                      None \<Rightarrow> '' '' | Some off \<Rightarrow> ''['' @ off @ ''] '') @
                   '' '' @ comment_suffix (groupdict f))) \<and>
           (kind f = DATA \<longrightarrow>
              (\<forall>val. groupdict f ''value'' = Some val \<longrightarrow>
                 (\<exists>opc. groupdict f ''opcode'' = Some opc \<and>
                    transformed ?st ! i =
                      label_column (groupdict f) @ ''   '' @ upper opc @ ''  '' @ val @
                      ''  '' @ comment_suffix (groupdict f))))"
    if v: "v = fadfa"
  proof (intro allI impI conjI)
    fix i f
    assume i: "i < length lines" and f: "parse_line v (rstrip (lines ! i)) = Inr f"
      and k: "kind f = FULL"
    from em[OF i f] obtain a where
      a: "emit v ?labels a (rstrip (lines ! i)) f = Inr (transformed ?st ! i)" by blast
    from emit_fadfa_FULL[OF f[unfolded v] k, of ?labels a] a
    show "\<exists>opc tgt s1 s2.
                 groupdict f ''opcode'' = Some opc \<and> groupdict f ''target'' = Some tgt \<and>
                 groupdict f ''src1'' = Some s1 \<and> groupdict f ''src2'' = Some s2 \<and>
                 transformed ?st ! i =
                   label_column (groupdict f) @ ''   '' @ upper opc @
                   predicate_suffix (groupdict f) @ ''  '' @ tgt @ '','' @ s1 @ '','' @ s2 @
                   (case groupdict f ''offset'' of
                      None \<Rightarrow> '' '' | Some off \<Rightarrow> ''['' @ off @ ''] '') @
                   '' '' @ comment_suffix (groupdict f)"
      using v by auto
  next
    fix i f val
    assume i: "i < length lines" and f: "parse_line v (rstrip (lines ! i)) = Inr f"
      and k: "kind f = DATA" and val: "groupdict f ''value'' = Some val"
    from em[OF i f] obtain a where
      a: "emit v ?labels a (rstrip (lines ! i)) f = Inr (transformed ?st ! i)" by blast
    from emit_fadfa_DATA[OF f[unfolded v] k val, of ?labels a] a
    show "\<exists>opc. groupdict f ''opcode'' = Some opc \<and>
                    transformed ?st ! i =
                      label_column (groupdict f) @ ''   '' @ upper opc @ ''  '' @ val @
                      ''  '' @ comment_suffix (groupdict f)"
      using v by auto
  qed
  show ?thesis
    using t basic p1 p2 by blast
qed

theorem full_and_data_lines_pass_through_witness:
  "(\<exists>st. transform assembler_phase1 [''x: add/Z r1,r2,r3[-5]  # c  '', ''y: DATA 0x1f''] =
        Inr (st, Returned) \<and>
      transformed st = [''x: add/Z r1,r2,r3[-5]  # c'', ''y: DATA 0x1f'']) \<and>
   (\<exists>st. transform fadfa [''x: add/Z r1,r2,r3[-5]  # c  '', ''y: DATA 0x1f''] =
        Inr (st, Returned) \<and> length (transformed st) = 2 \<and>
      transformed st = [''x:   ADD/Z  r1,r2,r3[-5]  # c'', ''y:   DATA  0x1f  ''])"
proof -
  let ?L = "[''x: add/Z r1,r2,r3[-5]  # c  '', ''y: DATA 0x1f'']"
  have h1: "list_all (\<lambda>raw. case parse_line assembler_phase1 (rstrip raw) of
              Inl e \<Rightarrow> False | Inr f \<Rightarrow> kind f = FULL \<or> kind f = DATA) ?L"
    by code_simp
  have h2: "list_all (\<lambda>raw. case parse_line fadfa (rstrip raw) of
              Inl e \<Rightarrow> False | Inr f \<Rightarrow> kind f = FULL \<or> kind f = DATA) ?L"
    by code_simp
  have h: "list_all (\<lambda>raw. case parse_line v (rstrip raw) of
              Inl e \<Rightarrow> False | Inr f \<Rightarrow> kind f = FULL \<or> kind f = DATA) ?L" for v
    using h1 h2 by (cases v) simp_all
  have hyp: "\<forall>raw \<in> set ?L. \<exists>f. parse_line v (rstrip raw) = Inr f \<and> (kind f = FULL \<or> kind f = DATA)" for v
  proof
    fix raw assume "raw \<in> set ?L"
    then have "case parse_line v (rstrip raw) of
              Inl e \<Rightarrow> False | Inr f \<Rightarrow> kind f = FULL \<or> kind f = DATA"
      using h[of v] unfolding list_all_iff by blast
    then show "\<exists>f. parse_line v (rstrip raw) = Inr f \<and> (kind f = FULL \<or> kind f = DATA)"
      by (cases "parse_line v (rstrip raw)") simp_all
  qed
  from full_and_data_lines_pass_through[OF hyp[of assembler_phase1]] obtain s1 where
    s1: "transform assembler_phase1 ?L = Inr (s1, Returned)" "transformed s1 = map rstrip ?L"
    by blast
  have r: "map rstrip ?L = [''x: add/Z r1,r2,r3[-5]  # c'', ''y: DATA 0x1f'']"
    by code_simp
  from full_and_data_lines_pass_through[OF hyp[of fadfa]] obtain s2 where
    s2: "transform fadfa ?L = Inr (s2, Returned)" "length (transformed s2) = length ?L"
    by blast
  have "case transform fadfa ?L of
      Inl e \<Rightarrow> False
    | Inr (s, c) \<Rightarrow> transformed s = [''x:   ADD/Z  r1,r2,r3[-5]  # c'', ''y:   DATA  0x1f  '']"
    by code_simp
  then have "transformed s2 = [''x:   ADD/Z  r1,r2,r3[-5]  # c'', ''y:   DATA  0x1f  '']"
    using s2(1) by simp
  then show ?thesis
    using s1 r s2 by simp
qed

text \<open>
  The claim as it was stated says that the opcode is not changed. \<^verbatim>\<open>fadfa.py\<close> gives
  \<^verbatim>\<open>add\<close> back as \<^verbatim>\<open>ADD\<close>, so the output is not the input up to white space
  (\<^verbatim>\<open>squish\<close> is the white-space normalisation that \<^verbatim>\<open>assembler_phase1.py\<close> defines).
\<close>

theorem pass_through_counterexample:
  "(case transform fadfa [''add r1,r2,r3''] of
      Inl e \<Rightarrow> False
    | Inr (st, c) \<Rightarrow> c = Returned \<and> error_count st = 0 \<and>
        transformed st = [''       ADD  r1,r2,r3  ''] \<and>
        squish (hd (transformed st)) = ''ADD r1,r2,r3'' \<and>
        squish ''add r1,r2,r3'' = ''add r1,r2,r3'' \<and>
        squish (hd (transformed st)) \<noteq> squish ''add r1,r2,r3'') \<and>
   (case parse_line fadfa ''add r1,r2,r3'' of
      Inl e \<Rightarrow> False
    | Inr f \<Rightarrow> kind f = FULL \<and> groupdict f ''opcode'' = Some ''add'')"
  by code_simp

subsection \<open>The value of a DATA line\<close>




text \<open>
  Claim C10. If every line (without its trailing white space, as the pass reads it)
  matches one of the five grammars, and the label of every MEMOP and JUMP line is in the
  symbol table built from the same input, then the rewrite pass returns, without any
  diagnostic, a list with one line for each input line, in the order of the input: the
  line at position \<open>i\<close> is what the pass makes of input line \<open>i\<close> at the address of that
  line. This holds for both files.
\<close>

theorem transform_one_output_per_line:
  assumes "resolve v lines = Inr labels"
    and "\<forall>raw \<in> set lines. \<exists>f. parse_line v (rstrip raw) = Inr f \<and>
           (kind f = MEMOP \<or> kind f = JUMP \<longrightarrow>
              (\<exists>ref a. groupdict f ''labelref'' = Some ref \<and> labels ref = Some a))"
  shows "\<exists>st. transform v lines = Inr (st, Returned) \<and>
           error_count st = 0 \<and> printed st = [] \<and>
           length (transformed st) = length lines \<and>
           (\<forall>i < length lines.
              transform_body v labels (line_address v lines i) (rstrip (lines ! i)) =
                Inr (transformed st ! i, line_address v lines (Suc i)))"
proof -
  have nf: "\<forall>raw \<in> set lines. \<not> fails v labels raw"
  proof
    fix raw assume "raw \<in> set lines"
    then obtain f where f: "parse_line v (rstrip raw) = Inr f"
      "kind f = MEMOP \<or> kind f = JUMP \<longrightarrow>
         (\<exists>ref a. groupdict f ''labelref'' = Some ref \<and> labels ref = Some a)"
      using assms(2) by blast
    then show "\<not> fails v labels raw"
      by (auto simp: fails_def failure_def pc_relative_def)
  qed
  let ?st = "steps v labels 0 lines initial"
  have "error_count initial + length (filter (fails v labels) lines) \<le> ERROR_LIMIT"
    using nf by (simp add: initial_def filter_False)
  then have loop: "transform_loop v labels 0 lines initial = (?st, Returned)"
    by (rule transform_loop_returns)
  have all: "error_count ?st = error_count initial \<and>
         printed ?st = printed initial \<and>
         length (transformed ?st) = length (transformed initial) + length lines \<and>
         take (length (transformed initial)) (transformed ?st) = transformed initial \<and>
         (\<forall>i < length lines.
            transform_body v labels
              (address initial + int (length (filter (takes_address v) (take i lines))))
              (rstrip (lines ! i)) =
            Inr (transformed ?st ! (length (transformed initial) + i),
                 address initial + int (length (filter (takes_address v) (take (Suc i) lines)))))"
    by (rule steps_all_succeed[OF nf])
  have "transform v lines = Inr (?st, Returned)"
    using assms(1) loop by (simp add: transform_def)
  moreover have "error_count ?st = 0" "printed ?st = []" "length (transformed ?st) = length lines"
    using all by (simp_all add: initial_def)
  moreover have "\<forall>i < length lines.
              transform_body v labels (line_address v lines i) (rstrip (lines ! i)) =
                Inr (transformed ?st ! i, line_address v lines (Suc i))"
    using all by (simp add: initial_def line_address_def)
  ultimately show ?thesis
    by blast
qed

theorem transform_one_output_per_line_witness:
  "\<exists>st. transform assembler_phase1
          [''again:  STORE r1,x'', ''        SUB   r1,r0,r0[1]'', ''        JUMP/P  again'',
           ''        HALT r0,r0,r0'', ''x:      DATA 0''] = Inr (st, Returned) \<and>
        error_count st = 0 \<and> printed st = [] \<and> length (transformed st) = 5 \<and>
        transformed st =
          [''again:   STORE  r1,r0,r15[4] #x  '', ''        SUB   r1,r0,r0[1]'',
           ''       ADD/P  r15,r0,r15[-2] #again  '', ''        HALT r0,r0,r0'',
           ''x:      DATA 0'']"
proof -
  let ?v = assembler_phase1
  let ?L = "[''again:  STORE r1,x'', ''        SUB   r1,r0,r0[1]'', ''        JUMP/P  again'',
           ''        HALT r0,r0,r0'', ''x:      DATA 0'']"
  have h: "case resolve ?v ?L of
      Inl e \<Rightarrow> False
    | Inr labels \<Rightarrow>
        list_all (\<lambda>raw. case parse_line ?v (rstrip raw) of
            Inl e \<Rightarrow> False
          | Inr f \<Rightarrow>
              (if kind f = MEMOP \<or> kind f = JUMP
               then (case groupdict f ''labelref'' of
                       None \<Rightarrow> False | Some r \<Rightarrow> labels r \<noteq> None)
               else True)) ?L"
    by code_simp
  then obtain labels where r: "resolve ?v ?L = Inr labels"
    and ok: "list_all (\<lambda>raw. case parse_line ?v (rstrip raw) of
            Inl e \<Rightarrow> False
          | Inr f \<Rightarrow>
              (if kind f = MEMOP \<or> kind f = JUMP
               then (case groupdict f ''labelref'' of
                       None \<Rightarrow> False | Some r \<Rightarrow> labels r \<noteq> None)
               else True)) ?L"
    by (cases "resolve ?v ?L") simp_all
  have hyp: "\<forall>raw \<in> set ?L. \<exists>f. parse_line ?v (rstrip raw) = Inr f \<and>
           (kind f = MEMOP \<or> kind f = JUMP \<longrightarrow>
              (\<exists>ref a. groupdict f ''labelref'' = Some ref \<and> labels ref = Some a))"
  proof
    fix raw assume "raw \<in> set ?L"
    then have "case parse_line ?v (rstrip raw) of
            Inl e \<Rightarrow> False
          | Inr f \<Rightarrow>
              (if kind f = MEMOP \<or> kind f = JUMP
               then (case groupdict f ''labelref'' of
                       None \<Rightarrow> False | Some r \<Rightarrow> labels r \<noteq> None)
               else True)"
      using ok unfolding list_all_iff by blast
    then show "\<exists>f. parse_line ?v (rstrip raw) = Inr f \<and>
           (kind f = MEMOP \<or> kind f = JUMP \<longrightarrow>
              (\<exists>ref a. groupdict f ''labelref'' = Some ref \<and> labels ref = Some a))"
      by (auto split: sum.splits option.splits if_splits)
  qed
  from transform_one_output_per_line[OF r hyp] obtain st where
    st: "transform ?v ?L = Inr (st, Returned)" "error_count st = 0" "printed st = []"
      "length (transformed st) = length ?L"
    by blast
  have "case transform ?v ?L of
      Inl e \<Rightarrow> False
    | Inr (s, c) \<Rightarrow> transformed s =
          [''again:   STORE  r1,r0,r15[4] #x  '', ''        SUB   r1,r0,r0[1]'',
           ''       ADD/P  r15,r0,r15[-2] #again  '', ''        HALT r0,r0,r0'',
           ''x:      DATA 0'']"
    by code_simp
  then have "transformed st =
          [''again:   STORE  r1,r0,r15[4] #x  '', ''        SUB   r1,r0,r0[1]'',
           ''       ADD/P  r15,r0,r15[-2] #again  '', ''        HALT r0,r0,r0'',
           ''x:      DATA 0'']"
    using st(1) by simp
  then show ?thesis
    using st by simp
qed

end
